theory Spec2Isabelle
  imports Complex_Main "HOL-Library.Sublist" "HOL-Library.Log_Nat"
begin

section \<open>Python strings\<close>

text \<open>
  Strings are \<^typ>\<open>string\<close>. Python's \<^verbatim>\<open>a in b\<close> on strings is the contiguous
  \<^const>\<open>sublist\<close> relation, \<^verbatim>\<open>b.endswith(a)\<close> is \<^const>\<open>suffix\<close>,
  \<^verbatim>\<open>b.startswith(a)\<close> is \<^const>\<open>prefix\<close>. An optional string (a value that
  may be \<^verbatim>\<open>None\<close>, or a dictionary key that may be absent) is a
  \<^typ>\<open>string option\<close>.
\<close>

definition truthy :: "string option \<Rightarrow> bool" where
  "truthy v = (case v of None \<Rightarrow> False | Some s \<Rightarrow> s \<noteq> [])"

text \<open>What an f-string prints for an optional string.\<close>

definition py_str :: "string option \<Rightarrow> string" where
  "py_str v = (case v of None \<Rightarrow> ''None'' | Some s \<Rightarrow> s)"

definition get_default :: "string option \<Rightarrow> string \<Rightarrow> string" where
  "get_default v d = (case v of None \<Rightarrow> d | Some s \<Rightarrow> s)"

definition digit_char :: "nat \<Rightarrow> char" where
  "digit_char d = ''0123456789'' ! d"

fun str_nat :: "nat \<Rightarrow> string" where
  "str_nat n = (if n < 10 then [digit_char n] else str_nat (n div 10) @ [digit_char (n mod 10)])"

declare str_nat.simps [simp del]

definition newline :: char where
  "newline = CHR 0x0A"

fun join :: "string \<Rightarrow> string list \<Rightarrow> string" where
  "join sep [] = []"
| "join sep [x] = x"
| "join sep (x # y # ys) = x @ sep @ join sep (y # ys)"

definition join_lines :: "string list \<Rightarrow> string" where
  "join_lines ls = join [newline] ls"

definition is_space :: "char \<Rightarrow> bool" where
  "is_space c = (c \<in> set [CHR '' '', CHR 0x09, CHR 0x0A, CHR 0x0B, CHR 0x0C, CHR 0x0D,
                             CHR 0x1C, CHR 0x1D, CHR 0x1E, CHR 0x1F])"

text \<open>\<^verbatim>\<open>s.split()\<close>: the maximal runs of non-whitespace characters.\<close>

fun split_ws_acc :: "string \<Rightarrow> string \<Rightarrow> string list" where
  "split_ws_acc cur [] = (if cur = [] then [] else [cur])"
| "split_ws_acc cur (c # cs) =
     (if is_space c then (if cur = [] then [] else [cur]) @ split_ws_acc [] cs
      else split_ws_acc (cur @ [c]) cs)"

definition split_ws :: "string \<Rightarrow> string list" where
  "split_ws s = split_ws_acc [] s"

section \<open>The graph record exchanged with callers\<close>

text \<open>
  A transition is a dictionary with the keys \<^verbatim>\<open>from\<close>, \<^verbatim>\<open>to\<close>, \<^verbatim>\<open>cond\<close>,
  read with \<^verbatim>\<open>.get\<close>: an absent key reads as \<^verbatim>\<open>None\<close>.
\<close>

record transition =
  t_from :: "string option"
  t_to :: "string option"
  t_cond :: "string option"

text \<open>
  The graph dictionary. \<open>scope\<close>, \<open>state_var\<close> and \<open>enum_name\<close> are \<^term>\<open>None\<close>
  when the key is absent (the generator then uses its default); \<open>g_next_state_var\<close> and
  \<open>g_reset_state\<close> are \<^term>\<open>None\<close> when absent or \<^verbatim>\<open>None\<close>; an absent \<open>g_states\<close> or
  \<open>g_transitions\<close> is the empty list.
\<close>

record fsm_graph =
  g_scope :: "string option"
  g_state_var :: "string option"
  g_next_state_var :: "string option"
  g_enum_name :: "string option"
  g_states :: "string list"
  g_reset_state :: "string option"
  g_transitions :: "transition list"
  g_num_states :: nat
  g_num_transitions :: nat

section \<open>Code generator (backend/code\_generator.py)\<close>

datatype validation_error =
    DuplicateStates
  | TransitionFromUnknown "string option"
  | TransitionToUnknown "string option"
  | ResetNotInStates string

text \<open>The loop over the transitions of \<^verbatim>\<open>_validate_graph\<close>: the first failing check raises.\<close>

fun check_transitions :: "string list \<Rightarrow> transition list \<Rightarrow> validation_error option" where
  "check_transitions sts [] = None"
| "check_transitions sts (t # ts) =
     (if t_from t \<notin> Some ` set sts then Some (TransitionFromUnknown (t_from t))
      else if t_to t \<notin> Some ` set sts then Some (TransitionToUnknown (t_to t))
      else check_transitions sts ts)"

definition validate_graph :: "fsm_graph \<Rightarrow> validation_error option" where
  "validate_graph g =
     (if length (g_states g) \<noteq> card (set (g_states g)) then Some DuplicateStates
      else case check_transitions (g_states g) (g_transitions g) of
             Some e \<Rightarrow> Some e
           | None \<Rightarrow>
               (if truthy (g_reset_state g) \<and> g_reset_state g \<notin> Some ` set (g_states g)
                then Some (ResetNotInStates (py_str (g_reset_state g)))
                else None))"

definition detect_fsm_style :: "fsm_graph \<Rightarrow> string" where
  "detect_fsm_style g = (if truthy (g_next_state_var g) then ''two_register'' else ''single_register'')"

text \<open>
  \<^verbatim>\<open>math.ceil(math.log2(n))\<close> is taken at its mathematical value
  \<^term>\<open>nat \<lceil>log 2 (real n)\<rceil>\<close>, which is how \<^const>\<open>ceillog2\<close> is defined for
  positive \<open>n\<close> (the rounding of the floating-point logarithm is not modelled).
\<close>

definition calculate_enum_width :: "nat \<Rightarrow> nat" where
  "calculate_enum_width n =
     (if n \<le> 2 then 1
      else if n \<le> 4 then 2
      else if n \<le> 8 then 3
      else if n \<le> 16 then 4
      else ceillog2 n)"

definition generate_enum :: "fsm_graph \<Rightarrow> string" where
  "generate_enum g =
     (let en = get_default (g_enum_name g) ''state_t''; sts = g_states g in
      if sts = [] then ''typedef enum logic [1:0] {} '' @ en @ '';''
      else
        let width = calculate_enum_width (length sts) in
        join_lines
          [''  typedef enum logic ['' @ str_nat (width - 1) @ '':0] {'',
           join ('','' @ [newline]) (map (\<lambda>s. ''    '' @ s) sts),
           ''  } '' @ en @ '';''])"

definition generate_variable_declarations :: "fsm_graph \<Rightarrow> string" where
  "generate_variable_declarations g =
     (let en = get_default (g_enum_name g) ''state_t''; sv = get_default (g_state_var g) ''state'' in
      join_lines
        ([''  '' @ en @ '' '' @ sv @ '';''] @
         (if truthy (g_next_state_var g) then [''  '' @ en @ '' '' @ py_str (g_next_state_var g) @ '';'']
          else [])))"

text \<open>
  What the three \<^verbatim>\<open>_extract_*\<close> helpers return: regular-expression searches over the
  original source text kept by the generator object, with the defaults \<^verbatim>\<open>clk\<close>,
  \<^verbatim>\<open>rst\<close> and \<^verbatim>\<open>posedge\<close>. They return a string on every text; the generator
  is modelled on their results.
\<close>

record source_hints =
  clock_signal :: string
  reset_signal :: string
  reset_polarity :: string

definition default_hints :: source_hints where
  "default_hints = \<lparr>clock_signal = ''clk'', reset_signal = ''rst'', reset_polarity = ''posedge''\<rparr>"

definition always_ff_lines :: "source_hints \<Rightarrow> fsm_graph \<Rightarrow> string list" where
  "always_ff_lines h g =
     (let sv = get_default (g_state_var g) ''state'' in
      [''  always_ff @(posedge '' @ clock_signal h @ '' or '' @ reset_polarity h @ '' ''
         @ reset_signal h @ '') begin''] @
      (if truthy (g_reset_state g) then
         [''    if ('' @ (if reset_polarity h = ''negedge'' then ''!'' else []) @ reset_signal h @ '')'',
          ''      '' @ sv @ '' <= '' @ py_str (g_reset_state g) @ '';'',
          ''    else'']
       else []) @
      (if truthy (g_next_state_var g) then [''      '' @ sv @ '' <= '' @ py_str (g_next_state_var g) @ '';'']
       else [''      '' @ sv @ '' <= '' @ sv @ '';'']) @
      [''  end''])"

definition generate_always_ff :: "source_hints \<Rightarrow> fsm_graph \<Rightarrow> string" where
  "generate_always_ff h g = join_lines (always_ff_lines h g)"

text \<open>
  The dictionary \<^verbatim>\<open>transitions_by_state\<close>, filled in edge-list order: a key is created
  with the empty list when first seen, then the edge is appended to its list.
\<close>

fun transitions_by_state ::
  "transition list \<Rightarrow> (string option \<rightharpoonup> transition list) \<Rightarrow> (string option \<rightharpoonup> transition list)" where
  "transitions_by_state [] d = d"
| "transitions_by_state (t # ts) d =
     (let d1 = (case d (t_from t) of None \<Rightarrow> d(t_from t \<mapsto> []) | Some _ \<Rightarrow> d) in
      transitions_by_state ts (d1(t_from t \<mapsto> the (d1 (t_from t)) @ [t])))"

text \<open>The left-hand side every emitted assignment writes.\<close>

definition write_var :: "fsm_graph \<Rightarrow> string" where
  "write_var g =
     (if truthy (g_next_state_var g) then py_str (g_next_state_var g)
      else get_default (g_state_var g) ''state'')"

text \<open>
  The test \<^verbatim>\<open>cond == "1" or not cond or cond == ""\<close> on
  \<^verbatim>\<open>cond = trans.get("cond", "1")\<close>.
\<close>

definition unconditional :: "string option \<Rightarrow> bool" where
  "unconditional c = (c = None \<or> c = Some ''1'' \<or> \<not> truthy c \<or> c = Some [])"

text \<open>
  The loop \<^verbatim>\<open>for i, trans in enumerate(state_transitions)\<close>; \<open>i\<close> is the position of the
  edge in its group.
\<close>

fun emit_transitions :: "string \<Rightarrow> nat \<Rightarrow> transition list \<Rightarrow> string list" where
  "emit_transitions w i [] = []"
| "emit_transitions w i (t # ts) =
     (if unconditional (t_cond t) then [''        '' @ w @ '' = '' @ py_str (t_to t) @ '';'']
      else
        [(if i = 0 then ''        if ('' @ py_str (t_cond t) @ '')''
          else ''        else if ('' @ py_str (t_cond t) @ '')''),
         ''          '' @ w @ '' = '' @ py_str (t_to t) @ '';'']) @
     emit_transitions w (Suc i) ts"

definition case_block :: "fsm_graph \<Rightarrow> string \<Rightarrow> string list" where
  "case_block g from_state =
     (let state_transitions =
            (case transitions_by_state (g_transitions g) Map.empty (Some from_state) of
               None \<Rightarrow> [] | Some l \<Rightarrow> l) in
      [''      '' @ from_state @ '': begin''] @
      (if state_transitions = [] then [''        '' @ write_var g @ '' = '' @ from_state @ '';'']
       else emit_transitions (write_var g) 0 state_transitions) @
      [''      end''])"

definition default_block :: "fsm_graph \<Rightarrow> string list" where
  "default_block g =
     [''      default: begin'',
      ''        '' @ write_var g @ '' = '' @ get_default (g_state_var g) ''state'' @ '';'',
      ''      end'']"

definition always_comb_lines :: "fsm_graph \<Rightarrow> string list" where
  "always_comb_lines g =
     (let sv = get_default (g_state_var g) ''state'' in
      [''  always_comb begin''] @
      (if truthy (g_next_state_var g) then [''    '' @ py_str (g_next_state_var g) @ '' = '' @ sv @ '';'']
       else []) @
      [''    unique case ('' @ sv @ '')''] @
      concat (map (case_block g) (g_states g)) @
      default_block g @
      [''    endcase'', ''  end''])"

definition generate_always_comb :: "fsm_graph \<Rightarrow> string" where
  "generate_always_comb g = join_lines (always_comb_lines g)"

definition assemble_code :: "string \<Rightarrow> string \<Rightarrow> string \<Rightarrow> string \<Rightarrow> string \<Rightarrow> string" where
  "assemble_code module_name enum_code var_declarations always_ff_code always_comb_code =
     join_lines
       [''module '' @ module_name @ '' ('',
        ''  input  logic clk,'',
        ''  input  logic rst,'',
        ''  // TODO: add other ports as needed'',
        '');'',
        [],
        enum_code,
        [],
        var_declarations,
        [],
        always_ff_code,
        [],
        always_comb_code,
        [],
        ''endmodule : '' @ module_name]"

definition module_name_of :: "fsm_graph \<Rightarrow> string option \<Rightarrow> string" where
  "module_name_of g module_name =
     (if truthy module_name then py_str module_name
      else
        let parts = split_ws (get_default (g_scope g) ''module fsm_example'') in
        if length parts > 1 then last parts else ''fsm_example'')"

text \<open>
  \<^verbatim>\<open>generate_code_from_graph\<close>: the exception of \<^verbatim>\<open>_validate_graph\<close> is the
  \<^term>\<open>Inl\<close> result, the returned source text the \<^term>\<open>Inr\<close> result.
\<close>

definition generate_code_from_graph ::
  "source_hints \<Rightarrow> fsm_graph \<Rightarrow> string option \<Rightarrow> validation_error + string" where
  "generate_code_from_graph h g module_name =
     (case validate_graph g of
        Some e \<Rightarrow> Inl e
      | None \<Rightarrow>
          Inr (assemble_code (module_name_of g module_name) (generate_enum g)
                 (generate_variable_declarations g) (generate_always_ff h g)
                 (generate_always_comb g)))"

section \<open>Example graphs\<close>

text \<open>The three checks of \<^verbatim>\<open>_validate_graph\<close>, as one predicate.\<close>

definition valid_graph :: "fsm_graph \<Rightarrow> bool" where
  "valid_graph g \<longleftrightarrow>
     distinct (g_states g) \<and>
     (\<forall>t \<in> set (g_transitions g). t_from t \<in> Some ` set (g_states g) \<and> t_to t \<in> Some ` set (g_states g)) \<and>
     (truthy (g_reset_state g) \<longrightarrow> g_reset_state g \<in> Some ` set (g_states g))"

text \<open>A graph with an edge into a state that is not declared.\<close>

definition g_dangling :: fsm_graph where
  "g_dangling = \<lparr>g_scope = Some ''module m'', g_state_var = Some ''state'', g_next_state_var = Some ''ns'',
     g_enum_name = Some ''t'', g_states = [''A'', ''B''], g_reset_state = Some ''A'',
     g_transitions = [\<lparr>t_from = Some ''A'', t_to = Some ''Z'', t_cond = Some ''x''\<rparr>],
     g_num_states = 2, g_num_transitions = 1\<rparr>"

text \<open>
  A well-formed graph whose state \<open>A\<close> has an unconditional edge followed by a
  conditional one.
\<close>

definition g_mixed :: fsm_graph where
  "g_mixed = \<lparr>g_scope = Some ''module m'', g_state_var = Some ''state'', g_next_state_var = Some ''ns'',
     g_enum_name = Some ''t'', g_states = [''A'', ''B'', ''C''], g_reset_state = Some ''A'',
     g_transitions = [\<lparr>t_from = Some ''A'', t_to = Some ''B'', t_cond = Some ''1''\<rparr>,
                    \<lparr>t_from = Some ''A'', t_to = Some ''C'', t_cond = Some ''x''\<rparr>],
     g_num_states = 3, g_num_transitions = 2\<rparr>"

section \<open>More string operations\<close>

text \<open>
  Characters are ASCII, as the identifiers and keywords of the analysed language are:
  \<^verbatim>\<open>str.lower\<close> maps \<open>A\<close>..\<open>Z\<close> to \<open>a\<close>..\<open>z\<close>, \<^verbatim>\<open>\w\<close> is a letter, a digit or
  an underscore, and \<^verbatim>\<open>\s\<close> (also what \<^verbatim>\<open>str.strip\<close> removes) is
  \<^const>\<open>is_space\<close>.
\<close>

definition lower_char :: "char \<Rightarrow> char" where
  "lower_char c =
     (if (65::nat) \<le> of_char c \<and> of_char c \<le> (90::nat) then char_of (of_char c + (32::nat)) else c)"

definition lower :: "string \<Rightarrow> string" where
  "lower s = map lower_char s"

definition is_alpha_us :: "char \<Rightarrow> bool" where
  "is_alpha_us c =
     (((65::nat) \<le> of_char c \<and> of_char c \<le> (90::nat)) \<or>
      ((97::nat) \<le> of_char c \<and> of_char c \<le> (122::nat)) \<or> c = CHR ''_'')"

definition is_word :: "char \<Rightarrow> bool" where
  "is_word c = (is_alpha_us c \<or> ((48::nat) \<le> of_char c \<and> of_char c \<le> (57::nat)))"

definition strip :: "string \<Rightarrow> string" where
  "strip s = rev (dropWhile is_space (rev (dropWhile is_space s)))"

text \<open>\<^verbatim>\<open>re.sub(r"\s+", "", txt)\<close>\<close>

definition remove_ws :: "string \<Rightarrow> string" where
  "remove_ws s = filter (\<lambda>c. \<not> is_space c) s"

text \<open>\<^verbatim>\<open>text.find(m)\<close>: the least offset at which \<open>m\<close> occurs, \<^term>\<open>None\<close> for \<open>-1\<close>.\<close>

fun str_find :: "string \<Rightarrow> string \<Rightarrow> nat option" where
  "str_find m [] = (if m = [] then Some 0 else None)"
| "str_find m (c # cs) =
     (if prefix m (c # cs) then Some 0
      else case str_find m cs of None \<Rightarrow> None | Some i \<Rightarrow> Some (Suc i))"

text \<open>\<^verbatim>\<open>a or b\<close> on optional strings.\<close>

definition py_or :: "string option \<Rightarrow> string option \<Rightarrow> string option" where
  "py_or a b = (if truthy a then a else b)"

text \<open>\<^verbatim>\<open>s.split(c)\<close> for a one-character separator: always at least one part.\<close>

fun split_on :: "char \<Rightarrow> string \<Rightarrow> string list" where
  "split_on sep [] = [[]]"
| "split_on sep (c # cs) =
     (case split_on sep cs of
        [] \<Rightarrow> [[c]]
      | p # ps \<Rightarrow> if c = sep then [] # p # ps else (c # p) # ps)"

text \<open>The list seen through Python's order-preserving deduplication: first occurrences.\<close>

fun dedup_acc :: "'a list \<Rightarrow> 'a list \<Rightarrow> 'a list" where
  "dedup_acc seen [] = []"
| "dedup_acc seen (x # xs) =
     (if x \<in> set seen then dedup_acc seen xs else x # dedup_acc (x # seen) xs)"

definition dedup :: "'a list \<Rightarrow> 'a list" where
  "dedup xs = dedup_acc [] xs"

text \<open>
  An insertion-ordered dictionary: assigning to a present key replaces its value in
  place, assigning to a new key appends it. Iteration follows the list.
\<close>

fun dict_set :: "'k \<Rightarrow> 'v \<Rightarrow> ('k \<times> 'v) list \<Rightarrow> ('k \<times> 'v) list" where
  "dict_set k v [] = [(k, v)]"
| "dict_set k v ((k', v') # d) = (if k' = k then (k, v) # d else (k', v') # dict_set k v d)"

definition dict_get :: "('k \<times> 'v) list \<Rightarrow> 'k \<Rightarrow> 'v option" where
  "dict_get d k = map_of d k"

section \<open>The syntax tree (AST\_CST/cst\_service.py)\<close>

text \<open>
  A node of the concrete syntax tree as the tree helpers see it: its identity (what
  \<^verbatim>\<open>id(node)\<close> distinguishes), its kind, its optional text, the optional \<^verbatim>\<open>line\<close> and
  \<^verbatim>\<open>column\<close> attributes, and its children in order.
\<close>

datatype node =
  Node (nid: nat) (kind: string) (text_of: "string option")
       (pos_line: "nat option") (pos_column: "nat option") (children: "node list")

fun find_all :: "node \<Rightarrow> string \<Rightarrow> node list" where
  "find_all (Node i k t l c chs) kind_name =
     (if k = kind_name then [Node i k t l c chs] else []) @
     concat (map (\<lambda>ch. find_all ch kind_name) chs)"

fun first_some :: "'a option list \<Rightarrow> 'a option" where
  "first_some [] = None"
| "first_some (None # xs) = first_some xs"
| "first_some (Some x # xs) = Some x"

fun find_first :: "node \<Rightarrow> string \<Rightarrow> node option" where
  "find_first (Node i k t l c chs) kind_name =
     (if k = kind_name then Some (Node i k t l c chs)
      else first_some (map (\<lambda>ch. find_first ch kind_name) chs))"

definition first_identifier_text :: "node \<Rightarrow> string option" where
  "first_identifier_text n =
     (case find_first n ''Identifier'' of None \<Rightarrow> None | Some x \<Rightarrow> text_of x)"

text \<open>The \<^verbatim>\<open>walk\<close> of \<^verbatim>\<open>collect_identifiers_inline\<close>: the texts of the leaves, in order.\<close>

fun walk :: "node \<Rightarrow> string list" where
  "walk (Node i k t l c chs) =
     (if truthy t \<and> chs = [] then [py_str t] else concat (map walk chs))"

definition collect_identifiers_inline :: "node \<Rightarrow> string" where
  "collect_identifiers_inline n = strip (concat (walk n))"

text \<open>All nodes of a tree in depth-first preorder, as every \<^verbatim>\<open>dfs\<close> helper visits them.\<close>

fun preorder :: "node \<Rightarrow> node list" where
  "preorder (Node i k t l c chs) = Node i k t l c chs # concat (map preorder chs)"

section \<open>Enum resolver (FSM\_core/FindeENUM.py)\<close>

text \<open>The text after the first \<open>c\<close> (\<^verbatim>\<open>s.split(c, 1)[1]\<close>, used where \<open>c\<close> occurs).\<close>

definition after_first :: "char \<Rightarrow> string \<Rightarrow> string" where
  "after_first c s = drop 1 (dropWhile (\<lambda>x. x \<noteq> c) s)"

text \<open>The text before the first \<open>c\<close>, or all of it (\<^verbatim>\<open>s.split(c, 1)[0]\<close>).\<close>

definition before_first :: "char \<Rightarrow> string \<Rightarrow> string" where
  "before_first c s = takeWhile (\<lambda>x. x \<noteq> c) s"

text \<open>The text before the last \<open>c\<close>, or all of it (\<^verbatim>\<open>s.rsplit(c, 1)[0]\<close>).\<close>

definition before_last :: "char \<Rightarrow> string \<Rightarrow> string" where
  "before_last c s = (if c \<in> set s then rev (after_first c (rev s)) else s)"

definition find_enum_members :: "node \<Rightarrow> string list" where
  "find_enum_members enum_node =
     (let enumerator_nodes = find_all enum_node ''Enumerator'' in
      if enumerator_nodes \<noteq> [] then
        map py_str
          (filter truthy (map (\<lambda>en. py_or (first_identifier_text en) (text_of en)) enumerator_nodes))
      else
        let brace_text = (if truthy (text_of enum_node) then py_str (text_of enum_node)
                          else collect_identifiers_inline enum_node) in
        if CHR ''{'' \<in> set brace_text \<and> CHR ''}'' \<in> set brace_text then
          let inner = before_last (CHR ''}'') (after_first (CHR ''{'') brace_text);
              parts = map strip
                        (split_on (CHR '','') (map (\<lambda>c. if c = newline then CHR '' '' else c) inner))
          in filter (\<lambda>name_part. name_part \<noteq> [])
               (map (\<lambda>p. strip (before_first (CHR ''='') p)) (filter (\<lambda>p. p \<noteq> []) parts))
        else [])"

record enum_info =
  ei_node :: node
  ei_name :: string
  ei_members :: "string list"

text \<open>The \<^verbatim>\<open>keyword_like\<close> set of \<^verbatim>\<open>build_enum_index\<close>.\<close>

definition keyword_like :: "string list" where
  "keyword_like = [''enum'', ''logic'', ''reg'', ''wire'', ''bit'', ''byte'', ''shortint'', ''int'',
     ''longint'', ''signed'', ''unsigned'', ''integer'', ''time'', ''real'', ''realtime'']"

text \<open>
  \<^verbatim>\<open>dfs_collect\<close>: every \<^verbatim>\<open>EnumType\<close> node in preorder, with its immediate parent
  (\<^term>\<open>None\<close> at the root).
\<close>

fun dfs_collect :: "node option \<Rightarrow> node \<Rightarrow> (node \<times> node option) list" where
  "dfs_collect parent (Node i k t l c chs) =
     (if k = ''EnumType'' then [(Node i k t l c chs, parent)] else []) @
     concat (map (dfs_collect (Some (Node i k t l c chs))) chs)"

text \<open>
  The identifiers of the parent statement that can name the enum: not inside the enum's
  own subtree, with a text, not a base-type keyword and not a member name.
\<close>

definition outer_names :: "node \<Rightarrow> node \<Rightarrow> string list \<Rightarrow> string list" where
  "outer_names parent en members =
     (let enum_ids = map nid (find_all en ''Identifier'') in
      map (\<lambda>id_node. py_str (text_of id_node))
        (filter (\<lambda>id_node. nid id_node \<notin> set enum_ids \<and> truthy (text_of id_node) \<and>
                   py_str (text_of id_node) \<notin> set keyword_like \<and>
                   py_str (text_of id_node) \<notin> set members)
           (find_all parent ''Identifier'')))"

text \<open>Assigning one value to several keys, in order.\<close>

fun dict_set_all :: "'k list \<Rightarrow> 'v \<Rightarrow> ('k \<times> 'v) list \<Rightarrow> ('k \<times> 'v) list" where
  "dict_set_all [] v d = d"
| "dict_set_all (k # ks) v d = dict_set_all ks v (dict_set k v d)"

text \<open>
  One iteration of the loop over the collected enum nodes: the state is the pair
  \<^verbatim>\<open>(enum_info_by_id, typedef_to_enum)\<close>.
\<close>

definition index_step ::
  "(node \<times> node option) \<Rightarrow> (nat \<times> enum_info) list \<times> (string \<times> nat) list \<Rightarrow>
     (nat \<times> enum_info) list \<times> (string \<times> nat) list" where
  "index_step item st =
     (let en = fst item; parent = snd item;
          members = find_enum_members en;
          enum_id = nid en;
          enum_info_by_id = fst st; typedef_to_enum = snd st in
      case parent of
        None \<Rightarrow>
          (dict_set enum_id \<lparr>ei_node = en, ei_name = [], ei_members = members\<rparr> enum_info_by_id,
           typedef_to_enum)
      | Some p \<Rightarrow>
          let parent_text = collect_identifiers_inline p;
              typedef_name =
                (if sublist ''typedef'' parent_text \<and> sublist ''enum'' parent_text then
                   (case outer_names p en members of [] \<Rightarrow> [] | nm # _ \<Rightarrow> nm)
                 else []);
              td1 = (if typedef_name \<noteq> [] then dict_set typedef_name enum_id typedef_to_enum
                     else typedef_to_enum);
              td2 = (if sublist ''enum'' parent_text \<and> \<not> sublist ''typedef'' parent_text then
                       dict_set_all (outer_names p en members) enum_id td1
                     else td1)
          in (dict_set enum_id \<lparr>ei_node = en, ei_name = typedef_name, ei_members = members\<rparr>
                enum_info_by_id,
              td2))"

text \<open>
  The loop that names the anonymous enums, over the dictionary in insertion order;
  \<open>anon_counter\<close> is the running counter, and \<^verbatim>\<open>synth_name\<close> is the name
  \<^verbatim>\<open>f"anonymous_enum_{suffix}_{anon_counter}"\<close> with
  \<^verbatim>\<open>suffix = members[0] if members else str(anon_counter)\<close>.
\<close>

definition synth_name :: "string list \<Rightarrow> nat \<Rightarrow> string" where
  "synth_name members anon_counter =
     (let sfx = (case members of [] \<Rightarrow> str_nat anon_counter | m # _ \<Rightarrow> m)
      in ''anonymous_enum_'' @ sfx @ ''_'' @ str_nat anon_counter)"

fun name_anonymous :: "nat \<Rightarrow> (nat \<times> enum_info) list \<Rightarrow> (nat \<times> enum_info) list" where
  "name_anonymous anon_counter [] = []"
| "name_anonymous anon_counter ((enum_id, info) # rest) =
     (if ei_name info = [] then
        (enum_id, info\<lparr>ei_name := synth_name (ei_members info) (anon_counter + 1)\<rparr>)
          # name_anonymous (anon_counter + 1) rest
      else (enum_id, info) # name_anonymous anon_counter rest)"

text \<open>The first loop of \<^verbatim>\<open>build_enum_index\<close>: the two dictionaries before naming.\<close>

definition collect_enum_index :: "node \<Rightarrow> (nat \<times> enum_info) list \<times> (string \<times> nat) list" where
  "collect_enum_index root_node = fold index_step (dfs_collect None root_node) ([], [])"

definition build_enum_index :: "node \<Rightarrow> (nat \<times> enum_info) list \<times> (string \<times> nat) list" where
  "build_enum_index root_node =
     (let st = collect_enum_index root_node
      in (name_anonymous 0 (fst st), snd st))"


datatype py_error = KeyError

record decl_enum =
  de_enum_id :: "nat option"
  de_enum_name :: string
  de_enum_members :: "string list"

definition no_enum :: decl_enum where
  "no_enum = \<lparr>de_enum_id = None, de_enum_name = [], de_enum_members = []\<rparr>"

text \<open>
  \<^verbatim>\<open>detect_enum_for_declaration\<close>. The subscript \<^verbatim>\<open>enum_info_by_id[enum_id]\<close> raises
  \<^verbatim>\<open>KeyError\<close> on an absent key.
\<close>

definition detect_enum_for_declaration ::
  "node \<Rightarrow> (nat \<times> enum_info) list \<Rightarrow> (string \<times> nat) list \<Rightarrow> py_error + decl_enum" where
  "detect_enum_for_declaration decl_node enum_info_by_id typedef_to_enum =
     (let full_text = collect_identifiers_inline decl_node in
      if sublist ''enum'' full_text then
        (case find_all decl_node ''EnumType'' of
           en # _ \<Rightarrow>
             (case dict_get enum_info_by_id (nid en) of
                Some info \<Rightarrow>
                  Inr \<lparr>de_enum_id = Some (nid en), de_enum_name = ei_name info,
                       de_enum_members = ei_members info\<rparr>
              | None \<Rightarrow>
                  Inr \<lparr>de_enum_id = Some (nid en), de_enum_name = [],
                       de_enum_members = find_enum_members en\<rparr>)
         | [] \<Rightarrow> Inr no_enum)
      else
        (case filter (\<lambda>(td_name, enum_id). td_name \<noteq> [] \<and> sublist td_name full_text)
                typedef_to_enum of
           (td_name, enum_id) # _ \<Rightarrow>
             (case dict_get enum_info_by_id enum_id of
                Some info \<Rightarrow>
                  Inr \<lparr>de_enum_id = Some enum_id, de_enum_name = ei_name info,
                       de_enum_members = ei_members info\<rparr>
              | None \<Rightarrow> Inl KeyError)
         | [] \<Rightarrow> Inr no_enum))"

text \<open>The \<^verbatim>\<open>keyword_like\<close> set of \<^verbatim>\<open>extract_var_names_from_declaration\<close>.\<close>

definition keyword_like_decl :: "string list" where
  "keyword_like_decl = ''typedef'' # keyword_like"

definition extract_var_names_from_declaration :: "node \<Rightarrow> string \<Rightarrow> string list \<Rightarrow> string list" where
  "extract_var_names_from_declaration decl_node enum_name enum_members =
     (let all_ids = map py_str (filter truthy (map text_of (find_all decl_node ''Identifier'')));
          to_skip = set enum_members \<union> set keyword_like_decl \<union>
                    (if enum_name \<noteq> [] then {enum_name} else {})
      in dedup (filter (\<lambda>name. name \<notin> to_skip) all_ids))"

definition scope_kinds :: "(string \<times> string) list" where
  "scope_kinds =
     [(''ModuleDeclaration'', ''module''), (''InterfaceDeclaration'', ''interface''),
      (''PackageDeclaration'', ''package''), (''ClassDeclaration'', ''class''),
      (''ProgramDeclaration'', ''program''), (''CheckerDeclaration'', ''checker''),
      (''ConfigDeclaration'', ''config'')]"

text \<open>The label \<^verbatim>\<open>f"{prefix} {nm}".strip()\<close> pushed for a scope node.\<close>

definition scope_label :: "string \<Rightarrow> node \<Rightarrow> string" where
  "scope_label pfx n =
     (let nm = (if truthy (first_identifier_text n) then py_str (first_identifier_text n) else [])
      in strip (pfx @ '' '' @ nm))"

text \<open>One detected variable: the dictionary appended to \<^verbatim>\<open>results\<close>.\<close>

record enum_var =
  ev_var_name :: string
  ev_enum_name :: string
  ev_enum_members :: "string list"
  ev_scope :: string
  ev_line :: "nat option"
  ev_column :: "nat option"

text \<open>
  The main \<^verbatim>\<open>dfs\<close> of \<^verbatim>\<open>detect_enum_variables_from_cst\<close>. Only the top of
  \<^verbatim>\<open>scope_stack\<close> is read (\<open>scope_str\<close>, empty when the stack is empty), and a scope node
  pushes its label for the visit of its children only. The records found are returned in
  the order they are appended; an exception aborts the walk.
\<close>

fun dfs_vars ::
    "(nat \<times> enum_info) list \<Rightarrow> (string \<times> nat) list \<Rightarrow> string \<Rightarrow> node \<Rightarrow> py_error + enum_var list"
  and dfs_vars_list ::
    "(nat \<times> enum_info) list \<Rightarrow> (string \<times> nat) list \<Rightarrow> string \<Rightarrow> node list \<Rightarrow> py_error + enum_var list"
  where
  "dfs_vars idx td scope_str (Node i k t l c chs) =
     (case map_of scope_kinds k of
        Some pfx \<Rightarrow> dfs_vars_list idx td (scope_label pfx (Node i k t l c chs)) chs
      | None \<Rightarrow>
          (if suffix ''Declaration'' k then
             (case detect_enum_for_declaration (Node i k t l c chs) idx td of
                Inl e \<Rightarrow> Inl e
              | Inr enum_info \<Rightarrow>
                  (case dfs_vars_list idx td scope_str chs of
                     Inl e \<Rightarrow> Inl e
                   | Inr rest \<Rightarrow>
                       Inr ((if de_enum_id enum_info \<noteq> None then
                               map (\<lambda>vn. \<lparr>ev_var_name = vn, ev_enum_name = de_enum_name enum_info,
                                           ev_enum_members = de_enum_members enum_info,
                                           ev_scope = scope_str, ev_line = l, ev_column = c\<rparr>)
                                 (extract_var_names_from_declaration (Node i k t l c chs)
                                    (de_enum_name enum_info) (de_enum_members enum_info))
                             else []) @ rest)))
           else dfs_vars_list idx td scope_str chs))"
| "dfs_vars_list idx td scope_str [] = Inr []"
| "dfs_vars_list idx td scope_str (n # ns) =
     (case dfs_vars idx td scope_str n of
        Inl e \<Rightarrow> Inl e
      | Inr r \<Rightarrow>
          (case dfs_vars_list idx td scope_str ns of
             Inl e \<Rightarrow> Inl e
           | Inr rs \<Rightarrow> Inr (r @ rs)))"

text \<open>The key of the final deduplication; the first record of each key is kept.\<close>

definition var_key :: "enum_var \<Rightarrow> string \<times> string \<times> string \<times> nat option \<times> nat option" where
  "var_key r = (ev_var_name r, ev_enum_name r, ev_scope r, ev_line r, ev_column r)"

fun unique_by :: "('a \<Rightarrow> 'k) \<Rightarrow> 'k list \<Rightarrow> 'a list \<Rightarrow> 'a list" where
  "unique_by key seen [] = []"
| "unique_by key seen (x # xs) =
     (if key x \<in> set seen then unique_by key seen xs else x # unique_by key (key x # seen) xs)"

definition detect_enum_variables_from_cst :: "node \<Rightarrow> py_error + enum_var list" where
  "detect_enum_variables_from_cst root_node =
     (let (enum_info_by_id, typedef_to_enum) = build_enum_index root_node in
      if enum_info_by_id = [] then Inr []
      else
        case dfs_vars enum_info_by_id typedef_to_enum [] root_node of
          Inl e \<Rightarrow> Inl e
        | Inr results \<Rightarrow> Inr (unique_by var_key [] results))"

section \<open>FSM candidates (fsm\_enum\_candidates\_cst.py)\<close>

text \<open>A candidate is the detected variable enriched with the \<^verbatim>\<open>fsm_reason\<close> flags.\<close>

record fsm_candidate = enum_var +
  fr_name_based :: bool
  fr_used_in_case :: bool
  fr_assigned_in_clocked_always :: bool

definition is_used_in_case :: "node \<Rightarrow> string \<Rightarrow> bool" where
  "is_used_in_case root_node v =
     (v \<noteq> [] \<and>
      list_ex (\<lambda>n. sublist v (collect_identifiers_inline n))
        (filter (\<lambda>n. prefix ''Case'' (kind n)) (preorder root_node)))"

definition is_assigned_in_clocked_always :: "node \<Rightarrow> string \<Rightarrow> bool" where
  "is_assigned_in_clocked_always root_node v =
     (v \<noteq> [] \<and>
      list_ex (\<lambda>n. let txt = collect_identifiers_inline n in
                  sublist v txt \<and> (sublist ''posedge'' txt \<or> sublist ''negedge'' txt))
        (find_all root_node ''AlwaysConstruct'' @ find_all root_node ''AlwaysStatement''))"

definition enrich :: "node \<Rightarrow> enum_var \<Rightarrow> fsm_candidate" where
  "enrich root_node item =
     enum_var.extend item
       (fsm_candidate.fields
          (sublist ''state'' (lower (ev_var_name item)) \<or> sublist ''state'' (lower (ev_enum_name item)))
          (is_used_in_case root_node (ev_var_name item))
          (is_assigned_in_clocked_always root_node (ev_var_name item)))"

definition detect_fsm_enum_candidates_from_cst :: "node \<Rightarrow> py_error + fsm_candidate list" where
  "detect_fsm_enum_candidates_from_cst root_node =
     (case detect_enum_variables_from_cst root_node of
        Inl e \<Rightarrow> Inl e
      | Inr enum_vars \<Rightarrow>
          Inr (filter (\<lambda>c. fr_name_based c \<or> fr_used_in_case c \<or> fr_assigned_in_clocked_always c)
                 (map (enrich root_node) enum_vars)))"

section \<open>Graph builder (fsm\_graph\_builder.py)\<close>

definition collect_scope_nodes :: "node \<Rightarrow> (string \<times> node) list" where
  "collect_scope_nodes root_node =
     fold (\<lambda>n d. case map_of scope_kinds (kind n) of
                    Some pfx \<Rightarrow> dict_set (scope_label pfx n) n d
                  | None \<Rightarrow> d)
       (preorder root_node) []"

definition collect_always_nodes :: "node \<Rightarrow> node list" where
  "collect_always_nodes scope_node = filter (\<lambda>n. sublist ''Always'' (kind n)) (preorder scope_node)"

definition safe_text :: "node \<Rightarrow> string" where
  "safe_text n = (if truthy (text_of n) then py_str (text_of n) else []) @ collect_identifiers_inline n"

definition is_clocked_always :: "node \<Rightarrow> bool" where
  "is_clocked_always n = (sublist ''posedge'' (safe_text n) \<or> sublist ''negedge'' (safe_text n))"

definition is_comb_always :: "node \<Rightarrow> bool" where
  "is_comb_always n = (sublist ''always_comb'' (safe_text n) \<or> sublist ''@*'' (safe_text n))"

definition var_written_in_always :: "node \<Rightarrow> string \<Rightarrow> bool" where
  "var_written_in_always n v =
     (v \<noteq> [] \<and>
      (let compact = remove_ws (collect_identifiers_inline n)
       in sublist (v @ ''<='') compact \<or> sublist (v @ ''='') compact))"

text \<open>
  The final values of the dictionaries \<^verbatim>\<open>written_clock\<close> and \<^verbatim>\<open>written_comb\<close> at a
  name of the group: an always-block that writes the name counts as clocked if it is
  clocked, and as combinational only if it is not clocked.
\<close>

definition written_clock :: "node list \<Rightarrow> string \<Rightarrow> bool" where
  "written_clock always_nodes v =
     list_ex (\<lambda>a. var_written_in_always a v \<and> is_clocked_always a) always_nodes"

definition written_comb :: "node list \<Rightarrow> string \<Rightarrow> bool" where
  "written_comb always_nodes v =
     list_ex (\<lambda>a. var_written_in_always a v \<and> \<not> is_clocked_always a \<and> is_comb_always a) always_nodes"

definition score_state_name :: "string \<Rightarrow> int" where
  "score_state_name name =
     (let n = lower name in
      (if n = ''state'' then 3 else 0) +
      (if sublist ''state'' n then 2 else 0) -
      (if sublist ''next'' n \<or> sublist ''nxt'' n \<or> suffix ''_d'' n \<or> suffix ''_ns'' n then 2 else 0))"

definition score_next_name :: "string option \<Rightarrow> string \<Rightarrow> int" where
  "score_next_name sv name =
     (let n = lower name in
      (if sublist ''next'' n \<or> sublist ''nxt'' n then 3 else 0) +
      (if suffix ''_d'' n \<or> suffix ''_ns'' n then 2 else 0) +
      (if sublist ''state'' n then 1 else 0) -
      (if truthy sv \<and> Some name = sv then 3 else 0))"

text \<open>
  The selection loop \<^verbatim>\<open>if sc > best_score: best_score = sc; best = name\<close>, from the
  initial pair \<^verbatim>\<open>(None, -999)\<close>.
\<close>

fun pick_best :: "(string \<Rightarrow> int) \<Rightarrow> string list \<Rightarrow> string option \<times> int \<Rightarrow> string option \<times> int" where
  "pick_best score [] best = best"
| "pick_best score (name # rest) best =
     (if score name > snd best then pick_best score rest (Some name, score name)
      else pick_best score rest best)"

text \<open>
  The candidate lists of \<^verbatim>\<open>_choose_state_and_next\<close>, as names in group order:
  \<^verbatim>\<open>state_candidates\<close> (the variables written in a clocked block, or the whole group if
  there is none) and \<^verbatim>\<open>next_candidates\<close>.
\<close>

definition state_candidates :: "node \<Rightarrow> 'a enum_var_scheme list \<Rightarrow> string list" where
  "state_candidates scope_node vars_in_group =
     (let always_nodes = collect_always_nodes scope_node;
          names = map ev_var_name vars_in_group;
          written = filter (written_clock always_nodes) names
      in if written = [] then names else written)"

definition next_candidates :: "node \<Rightarrow> 'a enum_var_scheme list \<Rightarrow> string list" where
  "next_candidates scope_node vars_in_group =
     filter (written_comb (collect_always_nodes scope_node)) (map ev_var_name vars_in_group)"

definition choose_state_and_next ::
  "node \<Rightarrow> 'a enum_var_scheme list \<Rightarrow> string option \<times> string option" where
  "choose_state_and_next scope_node vars_in_group =
     (let sv = fst (pick_best score_state_name (state_candidates scope_node vars_in_group) (None, - 999));
          best_next = pick_best (score_next_name sv) (next_candidates scope_node vars_in_group)
                        (None, - 999)
      in (sv, if snd best_next > - 999 then fst best_next else None))"

definition is_case_on_state :: "string \<Rightarrow> node \<Rightarrow> bool" where
  "is_case_on_state sv n =
     (prefix ''Case'' (kind n) \<and>
      (let compact = remove_ws (collect_identifiers_inline n) in
       sublist (''case('' @ sv @ '')'') compact \<or>
       sublist (''uniquecase('' @ sv @ '')'') compact \<or>
       sublist (''prioritycase('' @ sv @ '')'') compact))"

definition find_case_nodes_on_state :: "node \<Rightarrow> string \<Rightarrow> node list" where
  "find_case_nodes_on_state scope_node sv = filter (is_case_on_state sv) (preorder scope_node)"

text \<open>\<^verbatim>\<open>dfs_items\<close>: the case items of a case node; the walk does not enter an item.\<close>

fun dfs_items :: "node \<Rightarrow> node list" where
  "dfs_items (Node i k t l c chs) =
     (if sublist ''CaseItem'' k then [Node i k t l c chs] else concat (map dfs_items chs))"

text \<open>The loop of \<^verbatim>\<open>_find_first_enum_in_text\<close> over the members; the state is
  \<^verbatim>\<open>(best_idx, best_member)\<close>.\<close>

fun first_enum_loop :: "string list \<Rightarrow> string \<Rightarrow> (nat \<times> string) option \<Rightarrow> (nat \<times> string) option" where
  "first_enum_loop [] txt best = best"
| "first_enum_loop (m # ms) txt best =
     (case str_find m txt of
        None \<Rightarrow> first_enum_loop ms txt best
      | Some idx \<Rightarrow>
          (case best of
             None \<Rightarrow> first_enum_loop ms txt (Some (idx, m))
           | Some b \<Rightarrow>
               if idx < fst b then first_enum_loop ms txt (Some (idx, m))
               else first_enum_loop ms txt best))"

definition find_first_enum_in_text :: "string list \<Rightarrow> string \<Rightarrow> string option" where
  "find_first_enum_in_text members txt = map_option snd (first_enum_loop members txt None)"

text \<open>
  A match of \<^verbatim>\<open>if\s*\((.*?)\)\<close> at the start of \<open>s\<close>: the captured group and the
  length of the match. The lazy group ends at the first closing parenthesis, and \<open>.\<close>
  does not match a newline.
\<close>

definition match_if :: "string \<Rightarrow> (string \<times> nat) option" where
  "match_if s =
     (if prefix ''if'' s then
        (case dropWhile is_space (drop 2 s) of
           [] \<Rightarrow> None
         | c # r \<Rightarrow>
             if c = CHR ''('' then
               (let grp = takeWhile (\<lambda>x. x \<noteq> CHR '')'' \<and> x \<noteq> newline) r in
                case drop (length grp) r of
                  [] \<Rightarrow> None
                | d # _ \<Rightarrow>
                    if d = CHR '')'' then Some (grp, length s - length r + length grp + 1)
                    else None)
             else None)
      else None)"

text \<open>
  A match of \<^verbatim>\<open>lhs\s*<?=\s*([A-Za-z_]\w*)\<close> at the start of \<open>s\<close>, where \<open>lhs\<close> is matched
  literally: the captured name and the length of the match.
\<close>

definition match_assign :: "string \<Rightarrow> string \<Rightarrow> (string \<times> nat) option" where
  "match_assign lhs s =
     (if prefix lhs s then
        (let r1 = dropWhile is_space (drop (length lhs) s);
             r2 = (case r1 of [] \<Rightarrow> r1 | c # r \<Rightarrow> if c = CHR ''<'' then r else r1) in
         case r2 of
           [] \<Rightarrow> None
         | e # r3 \<Rightarrow>
             if e = CHR ''='' then
               (case dropWhile is_space r3 of
                  [] \<Rightarrow> None
                | a # r4 \<Rightarrow>
                    if is_alpha_us a then
                      (let name = a # takeWhile is_word r4
                       in Some (name, length s - length r4 + length (takeWhile is_word r4)))
                    else None)
             else None)
      else None)"

text \<open>
  \<^verbatim>\<open>pattern.finditer(text)\<close>: the matches from left to right, without overlap. \<open>pos\<close>
  is the offset of the rest of the text; after a match of length \<open>len\<close> the next
  \<open>len - 1\<close> offsets are skipped. Each match is its start offset and its group.
\<close>

fun finditer :: "(string \<Rightarrow> (string \<times> nat) option) \<Rightarrow> nat \<Rightarrow> nat \<Rightarrow> string \<Rightarrow> (nat \<times> string) list" where
  "finditer m pos skip [] = []"
| "finditer m pos skip (c # cs) =
     (if skip > 0 then finditer m (Suc pos) (skip - 1) cs
      else case m (c # cs) of
             None \<Rightarrow> finditer m (Suc pos) 0 cs
           | Some (g, len) \<Rightarrow> (pos, g) # finditer m (Suc pos) (len - 1) cs)"

text \<open>The guard of an assignment that starts at \<open>assign_start\<close>.\<close>

definition guard_at :: "(nat \<times> string) list \<Rightarrow> nat \<Rightarrow> string" where
  "guard_at if_matches assign_start =
     (let prev_ifs = filter (\<lambda>m. fst m < assign_start) if_matches
      in if prev_ifs \<noteq> [] then strip (snd (last prev_ifs)) else ''1'')"

definition find_assignments_with_conditions ::
  "string \<Rightarrow> string \<Rightarrow> string list \<Rightarrow> (string \<times> string) list" where
  "find_assignments_with_conditions txt lhs_name members =
     (let if_matches = finditer match_if 0 0 txt;
          assign_matches = finditer (match_assign lhs_name) 0 0 txt
      in dedup (map (\<lambda>am. (snd am, guard_at if_matches (fst am)))
                  (filter (\<lambda>am. snd am \<in> set members) assign_matches)))"

text \<open>The edges of one case item.\<close>

definition item_transitions :: "string \<Rightarrow> string list \<Rightarrow> node \<Rightarrow> transition list" where
  "item_transitions lhs_name members item =
     (let item_text = collect_identifiers_inline item in
      if item_text = [] then []
      else
        case find_first_enum_in_text members item_text of
          None \<Rightarrow> []
        | Some from_state \<Rightarrow>
            if from_state = [] then []
            else map (\<lambda>(to_state, cond).
                        \<lparr>t_from = Some from_state, t_to = Some to_state, t_cond = Some cond\<rparr>)
                   (find_assignments_with_conditions item_text lhs_name members))"

definition build_transitions_from_cases ::
  "node list \<Rightarrow> string \<Rightarrow> string option \<Rightarrow> string list \<Rightarrow> transition list" where
  "build_transitions_from_cases case_nodes sv nsv members =
     (let lhs_name = (if truthy nsv then py_str nsv else sv) in
      if lhs_name = [] then []
      else concat (map (\<lambda>case_node.
                          concat (map (item_transitions lhs_name members) (dfs_items case_node)))
                     case_nodes))"

fun detect_reset_state :: "node list \<Rightarrow> string \<Rightarrow> string list \<Rightarrow> string option" where
  "detect_reset_state [] sv members = None"
| "detect_reset_state (a # rest) sv members =
     (if \<not> is_clocked_always a then detect_reset_state rest sv members
      else
        let txt = collect_identifiers_inline a in
        if \<not> sublist sv txt then detect_reset_state rest sv members
        else
          let compact = remove_ws txt in
          case find (\<lambda>m. sublist (sv @ ''='' @ m) compact \<or> sublist (sv @ ''<='' @ m) compact)
                 members of
            Some m \<Rightarrow> Some m
          | None \<Rightarrow> detect_reset_state rest sv members)"

text \<open>\<^verbatim>\<open>groups.setdefault(key, []).append(cand)\<close>\<close>

fun dict_append :: "'k \<Rightarrow> 'v \<Rightarrow> ('k \<times> 'v list) list \<Rightarrow> ('k \<times> 'v list) list" where
  "dict_append k v [] = [(k, [v])]"
| "dict_append k v ((k', vs) # d) =
     (if k' = k then (k', vs @ [v]) # d else (k', vs) # dict_append k v d)"

definition transition_key :: "transition \<Rightarrow> string option \<times> string option \<times> string option" where
  "transition_key t = (t_from t, t_to t, t_cond t)"

text \<open>
  The body of the loop over the groups of \<^verbatim>\<open>build_fsm_graphs_from_cst\<close>: the graph
  appended for one group, or nothing where the body ends in \<^verbatim>\<open>continue\<close>.
\<close>

definition group_graph ::
  "(string \<times> node) list \<Rightarrow> ((string \<times> string) \<times> enum_var) list \<Rightarrow>
     (string \<times> string) \<times> fsm_candidate list \<Rightarrow> fsm_graph list" where
  "group_graph scope_nodes enum_index grp =
     (let scope_name = fst (fst grp); en = snd (fst grp); vars_in_group = snd grp in
      case dict_get scope_nodes scope_name of
        None \<Rightarrow> []
      | Some scope_node \<Rightarrow>
          let members =
                (case filter (\<lambda>v. dict_get enum_index (scope_name, ev_var_name v) \<noteq> None) vars_in_group of
                   [] \<Rightarrow> []
                 | v # _ \<Rightarrow> ev_enum_members (the (dict_get enum_index (scope_name, ev_var_name v))))
          in
          if members = [] then []
          else
            let (sv_opt, nsv) = choose_state_and_next scope_node vars_in_group in
            if \<not> truthy sv_opt then []
            else
              let sv = py_str sv_opt;
                  always_nodes = collect_always_nodes scope_node;
                  case_nodes = find_case_nodes_on_state scope_node sv;
                  trans = build_transitions_from_cases case_nodes sv nsv members;
                  reset = detect_reset_state always_nodes sv members;
                  unique_transitions = unique_by transition_key [] trans
              in [\<lparr>g_scope = Some scope_name, g_state_var = Some sv, g_next_state_var = nsv,
                    g_enum_name = Some en, g_states = members, g_reset_state = reset,
                    g_transitions = unique_transitions,
                    g_num_states = length members,
                    g_num_transitions = length unique_transitions\<rparr>])"

definition build_fsm_graphs_from_cst :: "node \<Rightarrow> py_error + fsm_graph list" where
  "build_fsm_graphs_from_cst root_node =
     (case detect_fsm_enum_candidates_from_cst root_node of
        Inl e \<Rightarrow> Inl e
      | Inr fsm_candidates \<Rightarrow>
          (case detect_enum_variables_from_cst root_node of
             Inl e \<Rightarrow> Inl e
           | Inr all_enum_vars \<Rightarrow>
               let enum_index =
                     fold (\<lambda>ev d. dict_set (ev_scope ev, ev_var_name ev) ev d) all_enum_vars [];
                   groups =
                     fold (\<lambda>cand d. if ev_enum_name cand = [] then d
                                     else dict_append (ev_scope cand, ev_enum_name cand) cand d)
                       fsm_candidates [];
                   scope_nodes = collect_scope_nodes root_node
               in Inr (concat (map (group_graph scope_nodes enum_index) groups))))"

section \<open>Example trees\<close>

text \<open>
  A module \<open>m\<close> with \<^verbatim>\<open>typedef enum {A, B} t; t state, nxt;\<close>, a clocked block
  \<^verbatim>\<open>state <= A; state <= nxt\<close> and a combinational block with
  \<^verbatim>\<open>case (state) A: if (x) nxt = B; B: nxt = A; default: nxt = state;\<close>.
\<close>

definition tiny_tree :: node where
  "tiny_tree =
     Node 0 ''ModuleDeclaration'' None None None
      [Node 1 ''Identifier'' (Some ''m'') None None [],
       Node 2 ''TypedefDeclaration'' None None None
        [Node 3 ''Token'' (Some ''typedef'') None None [],
         Node 4 ''EnumType'' None None None
          [Node 5 ''Token'' (Some ''enum'') None None [],
           Node 6 ''Enumerator'' None None None
            [Node 7 ''Identifier'' (Some ''A'') None None []],
           Node 8 ''Enumerator'' None None None
            [Node 9 ''Identifier'' (Some ''B'') None None []]],
         Node 10 ''Identifier'' (Some ''t'') None None []],
       Node 11 ''DataDeclaration'' None None None
        [Node 12 ''Identifier'' (Some ''t'') None None [],
         Node 13 ''Identifier'' (Some ''state'') None None [],
         Node 14 ''Identifier'' (Some ''nxt'') None None []],
       Node 15 ''AlwaysFFBlock'' None None None
        [Node 16 ''Token'' (Some ''posedge'') None None [],
         Node 17 ''Identifier'' (Some ''state'') None None [],
         Node 18 ''Token'' (Some ''<='') None None [],
         Node 19 ''Identifier'' (Some ''A'') None None [],
         Node 20 ''Token'' (Some '';'') None None [],
         Node 21 ''Identifier'' (Some ''state'') None None [],
         Node 22 ''Token'' (Some ''<='') None None [],
         Node 23 ''Identifier'' (Some ''nxt'') None None []],
       Node 24 ''AlwaysCombBlock'' None None None
        [Node 25 ''Token'' (Some ''always_comb'') None None [],
         Node 26 ''CaseStatement'' None None None
          [Node 27 ''Token'' (Some ''case('') None None [],
           Node 28 ''Identifier'' (Some ''state'') None None [],
           Node 29 ''Token'' (Some '')'') None None [],
           Node 30 ''StandardCaseItem'' None None None
            [Node 31 ''Identifier'' (Some ''A'') None None [],
             Node 32 ''Token'' (Some '':if(x)'') None None [],
             Node 33 ''Identifier'' (Some ''nxt'') None None [],
             Node 34 ''Token'' (Some ''='') None None [],
             Node 35 ''Identifier'' (Some ''B'') None None []],
           Node 36 ''StandardCaseItem'' None None None
            [Node 37 ''Identifier'' (Some ''B'') None None [],
             Node 38 ''Token'' (Some '':'') None None [],
             Node 39 ''Identifier'' (Some ''nxt'') None None [],
             Node 40 ''Token'' (Some ''='') None None [],
             Node 41 ''Identifier'' (Some ''A'') None None []],
           Node 42 ''DefaultCaseItem'' None None None
            [Node 43 ''Token'' (Some ''default:'') None None [],
             Node 44 ''Identifier'' (Some ''nxt'') None None [],
             Node 45 ''Token'' (Some ''='') None None [],
             Node 46 ''Identifier'' (Some ''state'') None None []]]]]"


text \<open>A scope whose only always-block is combinational and writes \<open>state\<close>.\<close>

definition comb_only_tree :: node where
  "comb_only_tree =
     Node 0 ''ModuleDeclaration'' None None None
      [Node 1 ''Identifier'' (Some ''m'') None None [],
       Node 2 ''AlwaysCombBlock'' None None None
        [Node 3 ''Token'' (Some ''always_comb'') None None [],
         Node 4 ''Identifier'' (Some ''state'') None None [],
         Node 5 ''Token'' (Some ''='') None None [],
         Node 6 ''Identifier'' (Some ''A'') None None []]]"





text \<open>The case item \<^verbatim>\<open>A: if (x) nxt = B\<close>, and one without any member name.\<close>

definition item_example :: node where
  "item_example =
     Node 0 ''StandardCaseItem'' None None None
      [Node 1 ''Identifier'' (Some ''A'') None None [],
       Node 2 ''Token'' (Some '':if(x)'') None None [],
       Node 3 ''Identifier'' (Some ''nxt'') None None [],
       Node 4 ''Token'' (Some ''='') None None [],
       Node 5 ''Identifier'' (Some ''B'') None None []]"

definition item_default :: node where
  "item_default =
     Node 0 ''DefaultCaseItem'' None None None
      [Node 1 ''Token'' (Some ''default:'') None None [],
       Node 2 ''Identifier'' (Some ''nxt'') None None [],
       Node 3 ''Token'' (Some ''='') None None [],
       Node 4 ''Identifier'' (Some ''state'') None None []]"

text \<open>
  The condition of an \<^verbatim>\<open>if (COND)\<close> that starts a text, as the condition is read in the
  source language: the text between the parenthesis that follows \<^verbatim>\<open>if\<close> and the
  parenthesis that closes it. \<open>close_paren d\<close> scans with \<open>d\<close> parentheses open.
\<close>

fun close_paren :: "nat \<Rightarrow> string \<Rightarrow> string option" where
  "close_paren d [] = None"
| "close_paren d (c # cs) =
     (if c = CHR '')'' then
        (if d = 0 then Some [] else map_option ((#) c) (close_paren (d - 1) cs))
      else if c = CHR ''('' then map_option ((#) c) (close_paren (Suc d) cs)
      else map_option ((#) c) (close_paren d cs))"

definition if_condition :: "string \<Rightarrow> string option" where
  "if_condition s =
     (if prefix ''if'' s then
        (case dropWhile is_space (drop 2 s) of
           [] \<Rightarrow> None
         | c # r \<Rightarrow> if c = CHR ''('' then close_paren 0 r else None)
      else None)"

text \<open>The case item \<^verbatim>\<open>A: if ((x) && y) nxt = B\<close>.\<close>

definition item_nested :: node where
  "item_nested =
     Node 0 ''StandardCaseItem'' None None None
      [Node 1 ''Identifier'' (Some ''A'') None None [],
       Node 2 ''Token'' (Some '':if((x)&&y)'') None None [],
       Node 3 ''Identifier'' (Some ''nxt'') None None [],
       Node 4 ''Token'' (Some ''='') None None [],
       Node 5 ''Identifier'' (Some ''B'') None None []]"

text \<open>
  A member list that is the member list of an entry of the enum index, or the member list
  read from an \<^verbatim>\<open>EnumType\<close> node below \<open>n\<close>.
\<close>

definition members_ok :: "(nat \<times> enum_info) list \<Rightarrow> node \<Rightarrow> string list \<Rightarrow> bool" where
  "members_ok idx n ms \<longleftrightarrow>
     (\<exists>info \<in> snd ` set idx. ms = ei_members info) \<or>
     (\<exists>en \<in> set (find_all n ''EnumType''). ms = find_enum_members en)"

text \<open>The graph extracted from \<^const>\<open>tiny_tree\<close>.\<close>

definition tiny_graph :: fsm_graph where
  "tiny_graph =
     \<lparr>g_scope = Some ''module m'', g_state_var = Some ''state'',
      g_next_state_var = Some ''nxt'', g_enum_name = Some ''t'',
      g_states = [''A'', ''B''], g_reset_state = Some ''A'',
      g_transitions =
        [\<lparr>t_from = Some ''A'', t_to = Some ''B'', t_cond = Some ''x''\<rparr>,
         \<lparr>t_from = Some ''B'', t_to = Some ''A'', t_cond = Some ''1''\<rparr>],
      g_num_states = 2, g_num_transitions = 2\<rparr>"

text \<open>Every identity stored in \<^verbatim>\<open>typedef_to_enum\<close> is a key of \<^verbatim>\<open>enum_info_by_id\<close>.\<close>

definition td_ok :: "(nat \<times> enum_info) list \<Rightarrow> (string \<times> nat) list \<Rightarrow> bool" where
  "td_ok idx td \<longleftrightarrow> snd ` set td \<subseteq> fst ` set idx"





text \<open>
  An assignment of the variable \<open>v\<close> to the member \<open>m\<close> in the words of the
  specification, under either assignment spelling, to be compared with the test of
  \<^const>\<open>detect_reset_state\<close>: the text has the
  identifier \<open>v\<close>, then \<^verbatim>\<open>=\<close> or \<^verbatim>\<open><=\<close>, then the identifier \<open>m\<close>, white space allowed
  around the operator. An identifier is a maximal run of word characters, so the character
  before \<open>v\<close> and the character after \<open>m\<close>, where there is one, is not a word character.
  \<open>spec_assigns_here\<close> reads such an assignment at the start of a text, \<open>spec_assigns\<close>
  anywhere in it (\<open>prev\<close> is the character before the current position).
\<close>

definition spec_assigns_here :: "string \<Rightarrow> string \<Rightarrow> string \<Rightarrow> bool" where
  "spec_assigns_here v m s =
     (prefix v s \<and>
      (let r = dropWhile is_space (drop (length v) s);
           rhs = (if prefix ''<='' r then Some (drop 2 r)
                  else if prefix ''='' r then Some (drop 1 r) else None)
       in case rhs of
            None \<Rightarrow> False
          | Some r2 \<Rightarrow>
              let r3 = dropWhile is_space r2
              in prefix m r3 \<and>
                 (case drop (length m) r3 of [] \<Rightarrow> True | c # _ \<Rightarrow> \<not> is_word c)))"

fun spec_assigns :: "string \<Rightarrow> string \<Rightarrow> char option \<Rightarrow> string \<Rightarrow> bool" where
  "spec_assigns v m prev [] = False"
| "spec_assigns v m prev (c # cs) =
     (((case prev of None \<Rightarrow> True | Some p \<Rightarrow> \<not> is_word p) \<and> spec_assigns_here v m (c # cs)) \<or>
      spec_assigns v m (Some c) cs)"

text \<open>
  The clocked block \<^verbatim>\<open>always_ff @(posedge clk) if (rst) state <= S10; else state <= nxt;\<close>
  of a machine whose enum is \<^verbatim>\<open>{S0, S1, S10}\<close>.
\<close>

definition reset_block :: node where
  "reset_block =
     Node 0 ''AlwaysFFBlock'' None None None
      [Node 1 ''Token'' (Some ''always_ff @(posedge clk) if (rst) '') None None [],
       Node 2 ''Identifier'' (Some ''state'') None None [],
       Node 3 ''Token'' (Some '' <= '') None None [],
       Node 4 ''Identifier'' (Some ''S10'') None None [],
       Node 5 ''Token'' (Some ''; else '') None None [],
       Node 6 ''Identifier'' (Some ''state'') None None [],
       Node 7 ''Token'' (Some '' <= '') None None [],
       Node 8 ''Identifier'' (Some ''nxt'') None None [],
       Node 9 ''Token'' (Some '';'') None None []]"

text \<open>
  A module that declares \<^verbatim>\<open>typedef enum {A, B} t1; typedef enum {C, D} t2; t1 state;\<close>
  and, local to the block of an \<^verbatim>\<open>initial\<close> statement, \<^verbatim>\<open>t2 state;\<close>. Both variables
  have the scope \<^verbatim>\<open>module m\<close>.
\<close>

definition shadow_tree :: node where
  "shadow_tree =
     Node 0 ''ModuleDeclaration'' None None None
      [Node 1 ''Identifier'' (Some ''m'') None None [],
       Node 2 ''TypedefDeclaration'' None None None
        [Node 3 ''Token'' (Some ''typedef'') None None [],
         Node 4 ''EnumType'' None None None
          [Node 5 ''Token'' (Some ''enum'') None None [],
           Node 6 ''Enumerator'' None None None
            [Node 7 ''Identifier'' (Some ''A'') None None []],
           Node 8 ''Enumerator'' None None None
            [Node 9 ''Identifier'' (Some ''B'') None None []]],
         Node 10 ''Identifier'' (Some ''t1'') None None []],
       Node 11 ''TypedefDeclaration'' None None None
        [Node 12 ''Token'' (Some ''typedef'') None None [],
         Node 13 ''EnumType'' None None None
          [Node 14 ''Token'' (Some ''enum'') None None [],
           Node 15 ''Enumerator'' None None None
            [Node 16 ''Identifier'' (Some ''C'') None None []],
           Node 17 ''Enumerator'' None None None
            [Node 18 ''Identifier'' (Some ''D'') None None []]],
         Node 19 ''Identifier'' (Some ''t2'') None None []],
       Node 20 ''DataDeclaration'' None None None
        [Node 21 ''Identifier'' (Some ''t1'') None None [],
         Node 22 ''Identifier'' (Some ''state'') None None []],
       Node 23 ''InitialBlock'' None None None
        [Node 24 ''Token'' (Some ''initial'') None None [],
         Node 25 ''SequentialBlockStatement'' None None None
          [Node 26 ''Token'' (Some ''begin'') None None [],
           Node 27 ''DataDeclaration'' None None None
            [Node 28 ''Identifier'' (Some ''t2'') None None [],
             Node 29 ''Identifier'' (Some ''state'') None None []],
           Node 30 ''Token'' (Some ''end'') None None []]]]"

section \<open>Properties of the code generator\<close>

lemma check_transitions_None_iff:
  "check_transitions sts ts = None \<longleftrightarrow>
     (\<forall>t \<in> set ts. t_from t \<in> Some ` set sts \<and> t_to t \<in> Some ` set sts)"
  by (induction ts) auto

lemma check_transitions_from:
  "check_transitions sts ts = Some (TransitionFromUnknown x) \<Longrightarrow>
     \<exists>t \<in> set ts. t_from t = x \<and> x \<notin> Some ` set sts"
  by (induction ts) (auto split: if_splits)

lemma check_transitions_to:
  "check_transitions sts ts = Some (TransitionToUnknown x) \<Longrightarrow>
     \<exists>t \<in> set ts. t_to t = x \<and> x \<notin> Some ` set sts"
  by (induction ts) (auto split: if_splits)

lemma check_transitions_kind:
  "check_transitions sts ts = Some e \<Longrightarrow>
     (\<exists>x. e = TransitionFromUnknown x) \<or> (\<exists>x. e = TransitionToUnknown x)"
  by (induction ts) (auto split: if_splits)

lemma length_card_distinct: "length xs \<noteq> card (set xs) \<longleftrightarrow> \<not> distinct xs"
  using distinct_card card_distinct by metis

lemma validate_graph_None_iff: "validate_graph g = None \<longleftrightarrow> valid_graph g"
proof (cases "check_transitions (g_states g) (g_transitions g)")
  case None
  then show ?thesis
    using check_transitions_None_iff[of "g_states g" "g_transitions g"]
    by (simp add: validate_graph_def valid_graph_def length_card_distinct)
next
  case (Some e)
  then show ?thesis
    using check_transitions_None_iff[of "g_states g" "g_transitions g"]
    by (simp add: validate_graph_def valid_graph_def length_card_distinct)
qed

lemma validate_graph_dup: "validate_graph g = Some DuplicateStates \<Longrightarrow> \<not> distinct (g_states g)"
  by (auto simp: validate_graph_def length_card_distinct split: option.splits if_splits
           dest: check_transitions_kind)

lemma validate_graph_from:
  "validate_graph g = Some (TransitionFromUnknown x) \<Longrightarrow>
     \<exists>t \<in> set (g_transitions g). t_from t = x \<and> x \<notin> Some ` set (g_states g)"
  by (auto simp: validate_graph_def split: option.splits if_splits dest: check_transitions_from)

lemma validate_graph_to:
  "validate_graph g = Some (TransitionToUnknown x) \<Longrightarrow>
     \<exists>t \<in> set (g_transitions g). t_to t = x \<and> x \<notin> Some ` set (g_states g)"
  by (auto simp: validate_graph_def split: option.splits if_splits dest: check_transitions_to)

lemma validate_graph_reset:
  "validate_graph g = Some (ResetNotInStates r) \<Longrightarrow>
     g_reset_state g = Some r \<and> r \<noteq> [] \<and> r \<notin> set (g_states g)"
  by (auto simp: validate_graph_def truthy_def py_str_def split: option.splits if_splits
           dest: check_transitions_kind)

lemma generate_Inl_iff: "generate_code_from_graph h g mn = Inl e \<longleftrightarrow> validate_graph g = Some e"
  by (simp add: generate_code_from_graph_def split: option.splits)

theorem generate_code_validation:
  "((\<exists>e. generate_code_from_graph h g mn = Inl e) \<longleftrightarrow>
      \<not> distinct (g_states g) \<or>
      (\<exists>t \<in> set (g_transitions g). t_from t \<notin> Some ` set (g_states g) \<or> t_to t \<notin> Some ` set (g_states g)) \<or>
      (truthy (g_reset_state g) \<and> g_reset_state g \<notin> Some ` set (g_states g))) \<and>
   ((\<exists>src. generate_code_from_graph h g mn = Inr src) \<longleftrightarrow>
      distinct (g_states g) \<and>
      (\<forall>t \<in> set (g_transitions g). t_from t \<in> Some ` set (g_states g) \<and> t_to t \<in> Some ` set (g_states g)) \<and>
      (truthy (g_reset_state g) \<longrightarrow> g_reset_state g \<in> Some ` set (g_states g))) \<and>
   (generate_code_from_graph h g mn = Inl DuplicateStates \<longrightarrow> \<not> distinct (g_states g)) \<and>
   (\<forall>x. generate_code_from_graph h g mn = Inl (TransitionFromUnknown x) \<longrightarrow>
      (\<exists>t \<in> set (g_transitions g). t_from t = x \<and> x \<notin> Some ` set (g_states g))) \<and>
   (\<forall>x. generate_code_from_graph h g mn = Inl (TransitionToUnknown x) \<longrightarrow>
      (\<exists>t \<in> set (g_transitions g). t_to t = x \<and> x \<notin> Some ` set (g_states g))) \<and>
   (\<forall>r. generate_code_from_graph h g mn = Inl (ResetNotInStates r) \<longrightarrow>
      g_reset_state g = Some r \<and> r \<noteq> [] \<and> r \<notin> set (g_states g))"
proof -
  have inl: "(\<exists>e. generate_code_from_graph h g mn = Inl e) \<longleftrightarrow> \<not> valid_graph g"
    using validate_graph_None_iff[of g] by (auto simp: generate_Inl_iff)
  have inr: "(\<exists>src. generate_code_from_graph h g mn = Inr src) \<longleftrightarrow> valid_graph g"
    using validate_graph_None_iff[of g]
    by (auto simp: generate_code_from_graph_def split: option.splits)
  show ?thesis
    using inl inr validate_graph_dup[of g] validate_graph_from[of g] validate_graph_to[of g]
      validate_graph_reset[of g]
    unfolding generate_Inl_iff valid_graph_def by blast
qed

theorem generate_code_validation_witness:
  "generate_code_from_graph default_hints g_dangling None = Inl (TransitionToUnknown (Some ''Z'')) \<and>
   (\<exists>t \<in> set (g_transitions g_dangling). t_to t = Some ''Z'' \<and> Some ''Z'' \<notin> Some ` set (g_states g_dangling))"
proof -
  have e: "generate_code_from_graph default_hints g_dangling None = Inl (TransitionToUnknown (Some ''Z''))"
    by (simp add: generate_code_from_graph_def validate_graph_def g_dangling_def)
  from generate_code_validation[of default_hints g_dangling None] e show ?thesis by blast
qed


text \<open>
  Claim C3, evaluated on the code. The position \<open>i\<close> that selects between \<^verbatim>\<open>if\<close> and
  \<^verbatim>\<open>else if\<close> counts every edge of the group, not only the conditional ones. In
  \<^const>\<open>g_mixed\<close>, which passes validation, the group of \<open>A\<close> is an unconditional edge
  followed by one conditional edge: the generated block introduces that first (and only)
  conditional edge by \<^verbatim>\<open>else if\<close>, directly after a plain assignment, and no
  \<^verbatim>\<open>if\<close> line is emitted for it.
\<close>

theorem always_comb_first_conditional_else_if:
  "validate_graph g_mixed = None \<and>
   always_comb_lines g_mixed =
     [''  always_comb begin'',
      ''    ns = state;'',
      ''    unique case (state)'',
      ''      A: begin'',
      ''        ns = B;'',
      ''        else if (x)'',
      ''          ns = C;'',
      ''      end'',
      ''      B: begin'',
      ''        ns = B;'',
      ''      end'',
      ''      C: begin'',
      ''        ns = C;'',
      ''      end'',
      ''      default: begin'',
      ''        ns = state;'',
      ''      end'',
      ''    endcase'',
      ''  end''] \<and>
   ''        if (x)'' \<notin> set (always_comb_lines g_mixed)"
  by (simp add: g_mixed_def validate_graph_def always_comb_lines_def case_block_def
      default_block_def write_var_def truthy_def py_str_def get_default_def unconditional_def)

subsection \<open>Width of the enum declaration\<close>

lemma calculate_enum_width_max: "0 < n \<Longrightarrow> calculate_enum_width n = max 1 (ceillog2 n)"
proof -
  assume n: "0 < n"
  have c2: "n \<le> 2 \<Longrightarrow> ceillog2 n \<le> 1" using n by (simp add: ceillog2_le_iff)
  have c4: "2 < n \<Longrightarrow> n \<le> 4 \<Longrightarrow> ceillog2 n = 2" by (rule ceillog2_eqI) auto
  have c8: "4 < n \<Longrightarrow> n \<le> 8 \<Longrightarrow> ceillog2 n = 3" by (rule ceillog2_eqI) auto
  have c16: "8 < n \<Longrightarrow> n \<le> 16 \<Longrightarrow> ceillog2 n = 4" by (rule ceillog2_eqI) auto
  have c17: "16 < n \<Longrightarrow> 1 \<le> ceillog2 n" using ceillog2_ge_iff[of n 1] by simp
  show ?thesis using c2 c4 c8 c16 c17
    by (auto simp: calculate_enum_width_def max_def)
qed

lemma calculate_enum_width_least:
  "0 < n \<Longrightarrow> calculate_enum_width n = (LEAST w. 1 \<le> w \<and> n \<le> 2 ^ w)"
proof -
  assume n: "0 < n"
  show ?thesis unfolding calculate_enum_width_max[OF n]
  proof (rule Least_equality[symmetric])
    show "1 \<le> max 1 (ceillog2 n) \<and> n \<le> 2 ^ max 1 (ceillog2 n)"
      using n ceillog2_le_iff[of n "max 1 (ceillog2 n)"] by simp
  next
    fix y assume "1 \<le> y \<and> n \<le> 2 ^ y"
    then show "max 1 (ceillog2 n) \<le> y" using n by (simp add: ceillog2_le_iff)
  qed
qed

lemma calculate_enum_width_real:
  "0 < n \<Longrightarrow> int (calculate_enum_width n) = max 1 \<lceil>log 2 (real n)\<rceil>"
proof -
  assume n: "0 < n"
  define c where "c = \<lceil>log 2 (real n)\<rceil>"
  from n have "0 \<le> log 2 (real n)" by simp
  then have c0: "0 \<le> c" unfolding c_def by linarith
  have "ceillog2 n = nat c" unfolding ceillog2_def c_def using n by simp
  then have "calculate_enum_width n = max 1 (nat c)" using calculate_enum_width_max[OF n] by simp
  moreover have "int (max 1 (nat c)) = max 1 c" using c0 by linarith
  ultimately have "int (calculate_enum_width n) = max 1 c" by simp
  then show ?thesis unfolding c_def .
qed

text \<open>
  Claim C6. For a graph with a non-empty \<open>states\<close> list, the enum declaration is
  \<^verbatim>\<open>typedef enum logic [w-1:0]\<close> where \<open>w\<close> is \<open>\<lceil>log\<^sub>2 |states|\<rceil>\<close> with a minimum of 1,
  that is, the least \<open>w \<ge> 1\<close> with \<open>2\<^sup>w \<ge> |states|\<close>.
\<close>

theorem enum_width_ceil_log2:
  assumes "g_states g \<noteq> []"
  shows "\<exists>w. generate_enum g =
           join_lines
             [''  typedef enum logic ['' @ str_nat (w - 1) @ '':0] {'',
              join ('','' @ [newline]) (map (\<lambda>s. ''    '' @ s) (g_states g)),
              ''  } '' @ get_default (g_enum_name g) ''state_t'' @ '';''] \<and>
         int w = max 1 \<lceil>log 2 (real (length (g_states g)))\<rceil> \<and>
         w = (LEAST w. 1 \<le> w \<and> length (g_states g) \<le> 2 ^ w) \<and>
         (length (g_states g) \<le> 2 \<longrightarrow> w = 1) \<and>
         (2 < length (g_states g) \<and> length (g_states g) \<le> 4 \<longrightarrow> w = 2) \<and>
         (4 < length (g_states g) \<and> length (g_states g) \<le> 8 \<longrightarrow> w = 3)"
proof -
  let ?n = "length (g_states g)"
  from assms have n: "0 < ?n" by simp
  have "generate_enum g =
           join_lines
             [''  typedef enum logic ['' @ str_nat (calculate_enum_width ?n - 1) @ '':0] {'',
              join ('','' @ [newline]) (map (\<lambda>s. ''    '' @ s) (g_states g)),
              ''  } '' @ get_default (g_enum_name g) ''state_t'' @ '';'']"
    by (simp only: generate_enum_def Let_def assms if_False)
  moreover have "(?n \<le> 2 \<longrightarrow> calculate_enum_width ?n = 1) \<and>
         (2 < ?n \<and> ?n \<le> 4 \<longrightarrow> calculate_enum_width ?n = 2) \<and>
         (4 < ?n \<and> ?n \<le> 8 \<longrightarrow> calculate_enum_width ?n = 3)"
    by (simp add: calculate_enum_width_def)
  ultimately show ?thesis
    using calculate_enum_width_real[OF n] calculate_enum_width_least[OF n] by blast
qed

theorem enum_width_ceil_log2_witness:
  "g_states g_mixed \<noteq> [] \<and>
   (\<exists>w. generate_enum g_mixed =
           join_lines
             [''  typedef enum logic ['' @ str_nat (w - 1) @ '':0] {'',
              join ('','' @ [newline]) (map (\<lambda>s. ''    '' @ s) (g_states g_mixed)),
              ''  } '' @ get_default (g_enum_name g_mixed) ''state_t'' @ '';''] \<and>
         w = 2)"
proof -
  have ne: "g_states g_mixed \<noteq> []" by (simp add: g_mixed_def)
  have len: "length (g_states g_mixed) = 3" by (simp add: g_mixed_def)
  from enum_width_ceil_log2[OF ne] obtain w where
    w: "generate_enum g_mixed =
           join_lines
             [''  typedef enum logic ['' @ str_nat (w - 1) @ '':0] {'',
              join ('','' @ [newline]) (map (\<lambda>s. ''    '' @ s) (g_states g_mixed)),
              ''  } '' @ get_default (g_enum_name g_mixed) ''state_t'' @ '';'']"
    and w2: "2 < length (g_states g_mixed) \<and> length (g_states g_mixed) \<le> 4 \<longrightarrow> w = 2"
    by blast
  from w2 len have "w = 2" by simp
  with w ne show ?thesis by blast
qed

section \<open>Properties of the state-variable classifier\<close>














section \<open>Properties of the reset detector\<close>

lemma detect_reset_state_member:
  "detect_reset_state always_nodes sv members = Some m \<Longrightarrow> m \<in> set members"
proof (induction always_nodes)
  case Nil
  then show ?case by simp
next
  case (Cons a rest)
  let ?P = "\<lambda>m. sublist (sv @ ''='' @ m) (remove_ws (collect_identifiers_inline a)) \<or>
                 sublist (sv @ ''<='' @ m) (remove_ws (collect_identifiers_inline a))"
  from Cons.prems have "detect_reset_state rest sv members = Some m \<or> find ?P members = Some m"
    by (simp add: Let_def split: if_splits option.splits)
  then show ?case
  proof
    assume "detect_reset_state rest sv members = Some m"
    then show ?thesis by (rule Cons.IH)
  next
    assume "find ?P members = Some m"
    then show ?thesis unfolding find_Some_iff by auto
  qed
qed

text \<open>
  Claim C7, evaluated on the code. The detector looks for the texts \<^verbatim>\<open>state=M\<close> and
  \<^verbatim>\<open>state<=M\<close> as substrings of the block text without white space, so a member that is
  a proper prefix of the assigned member matches too. In \<^const>\<open>reset_block\<close> the state
  variable is assigned \<^verbatim>\<open>S10\<close> under reset and \<^verbatim>\<open>nxt\<close> otherwise; with the members
  \<^verbatim>\<open>S0, S1, S10\<close> the detector returns \<^verbatim>\<open>S1\<close>, which the block never assigns
  (\<^const>\<open>spec_assigns\<close>), and not \<^verbatim>\<open>S10\<close>, which it does assign. The assignment pattern
  of \<^verbatim>\<open>_find_assignments_with_conditions\<close>, which reads the whole identifier on the right
  of the operator, finds \<^verbatim>\<open>S10\<close> and \<^verbatim>\<open>nxt\<close> in the same text.
\<close>

theorem reset_state_prefix_member:
  "collect_identifiers_inline reset_block =
     ''always_ff @(posedge clk) if (rst) state <= S10; else state <= nxt;'' \<and>
   is_clocked_always reset_block \<and>
   detect_reset_state [reset_block] ''state'' [''S0'', ''S1'', ''S10''] = Some ''S1'' \<and>
   \<not> spec_assigns ''state'' ''S1'' None (collect_identifiers_inline reset_block) \<and>
   spec_assigns ''state'' ''S10'' None (collect_identifiers_inline reset_block) \<and>
   map snd (finditer (match_assign ''state'') 0 0 (collect_identifiers_inline reset_block)) =
     [''S10'', ''nxt'']"
proof -
  have "collect_identifiers_inline reset_block =
          ''always_ff @(posedge clk) if (rst) state <= S10; else state <= nxt;''"
    by code_simp
  moreover have "is_clocked_always reset_block" by code_simp
  moreover have "detect_reset_state [reset_block] ''state'' [''S0'', ''S1'', ''S10''] = Some ''S1''"
    by code_simp
  moreover have "\<not> spec_assigns ''state'' ''S1'' None (collect_identifiers_inline reset_block)"
    by code_simp
  moreover have "spec_assigns ''state'' ''S10'' None (collect_identifiers_inline reset_block)"
    by code_simp
  moreover have "map snd (finditer (match_assign ''state'') 0 0 (collect_identifiers_inline reset_block)) =
     [''S10'', ''nxt'']"
    by code_simp
  ultimately show ?thesis by (intro conjI)
qed

section \<open>Properties of the enum resolver\<close>

lemma dfs_collect_find_all: "map fst (dfs_collect p n) = find_all n ''EnumType''"
proof (induction n arbitrary: p)
  case (Node i k t l c chs)
  have "concat (map (map fst \<circ> dfs_collect (Some (Node i k t l c chs))) chs)
        = concat (map (\<lambda>ch. find_all ch ''EnumType'') chs)"
    by (rule arg_cong[where f = concat], rule map_cong) (auto simp: Node.IH)
  then show ?case by (simp add: map_concat)
qed

lemma no_enum_index:
  assumes "find_all root_node ''EnumType'' = []"
  shows "build_enum_index root_node = ([], [])"
proof -
  from assms have "map fst (dfs_collect None root_node) = []" by (simp add: dfs_collect_find_all)
  then have "dfs_collect None root_node = []" by simp
  then show ?thesis by (simp add: build_enum_index_def collect_enum_index_def)
qed

lemma no_vars_no_graphs:
  assumes "detect_enum_variables_from_cst root_node = Inr []"
  shows "detect_fsm_enum_candidates_from_cst root_node = Inr [] \<and> build_fsm_graphs_from_cst root_node = Inr []"
  using assms by (simp add: detect_fsm_enum_candidates_from_cst_def build_fsm_graphs_from_cst_def)

text \<open>
  Claim C9. On a tree without an \<^verbatim>\<open>EnumType\<close> node the enum index is a pair of empty
  dictionaries, enum detection and candidate detection return the empty list and the graph
  builder returns the empty graph list; all of them return (\<^term>\<open>Inr\<close>), none raises.
  More generally the builder returns the empty graph list whenever enum detection finds no
  variable.
\<close>

theorem no_enum_empty_result:
  "(find_all root_node ''EnumType'' = [] \<longrightarrow>
      build_enum_index root_node = ([], []) \<and>
      detect_enum_variables_from_cst root_node = Inr [] \<and>
      detect_fsm_enum_candidates_from_cst root_node = Inr [] \<and>
      build_fsm_graphs_from_cst root_node = Inr []) \<and>
   (detect_enum_variables_from_cst root_node = Inr [] \<longrightarrow>
      build_fsm_graphs_from_cst root_node = Inr [])"
proof -
  have "detect_enum_variables_from_cst root_node = Inr []" if "find_all root_node ''EnumType'' = []"
    using no_enum_index[OF that] by (simp add: detect_enum_variables_from_cst_def)
  then show ?thesis using no_enum_index no_vars_no_graphs by blast
qed

theorem no_enum_empty_result_witness:
  "find_all comb_only_tree ''EnumType'' = [] \<and>
   detect_enum_variables_from_cst comb_only_tree = Inr [] \<and>
   build_fsm_graphs_from_cst comb_only_tree = Inr []"
proof -
  have "find_all comb_only_tree ''EnumType'' = []" by code_simp
  with no_enum_empty_result[of comb_only_tree] show ?thesis by blast
qed

subsection \<open>Names of anonymous enums\<close>

lemma name_anonymous_length [simp]: "length (name_anonymous c d) = length d"
  by (induction d arbitrary: c) (auto simp: Let_def)












lemma dict_set_map_fst:
  "map fst (dict_set k v d) = (if k \<in> set (map fst d) then map fst d else map fst d @ [k])"
proof (induction d)
  case Nil
  then show ?case by simp
next
  case (Cons e d)
  obtain k' v' where e: "e = (k', v')" by (cases e)
  show ?case using Cons by (cases "k' = k") (auto simp: e)
qed

lemma dict_set_keys: "set (map fst (dict_set k v d)) = insert k (set (map fst d))"
  by (auto simp: dict_set_map_fst)

lemma index_step_keys:
  "set (map fst (fst (index_step item st))) = insert (nid (fst item)) (set (map fst (fst st)))"
  using dict_set_keys[of "nid (fst item)" _ "fst st"]
  by (simp add: index_step_def Let_def split: option.splits)




section \<open>Properties of the transition graph builder\<close>

lemma str_find_Some:
  "str_find m s = Some i \<Longrightarrow>
     i \<le> length s \<and> prefix m (drop i s) \<and> (\<forall>j < i. \<not> prefix m (drop j s))"
proof (induction s arbitrary: i)
  case Nil
  then show ?case by (simp split: if_splits)
next
  case (Cons c cs)
  show ?case
  proof (cases "prefix m (c # cs)")
    case True
    with Cons.prems show ?thesis by simp
  next
    case False
    with Cons.prems obtain i' where i': "str_find m cs = Some i'" "i = Suc i'"
      by (auto split: option.splits)
    from Cons.IH[OF i'(1)] have ih: "i' \<le> length cs" "prefix m (drop i' cs)"
      "\<forall>j < i'. \<not> prefix m (drop j cs)" by auto
    have "\<forall>j < i. \<not> prefix m (drop j (c # cs))"
    proof (intro allI impI)
      fix j assume "j < i"
      show "\<not> prefix m (drop j (c # cs))"
      proof (cases j)
        case 0
        with False show ?thesis by simp
      next
        case (Suc j')
        with \<open>j < i\<close> i'(2) ih(3) show ?thesis by simp
      qed
    qed
    with ih i'(2) show ?thesis by simp
  qed
qed

lemma str_find_None: "str_find m s = None \<Longrightarrow> \<not> sublist m s"
proof (induction s)
  case Nil
  then show ?case by (simp split: if_splits)
next
  case (Cons c cs)
  then show ?case by (auto simp: sublist_Cons_right split: if_splits option.splits)
qed

lemma str_find_None_iff: "str_find m txt = None \<longleftrightarrow> \<not> sublist m txt"
proof
  assume "str_find m txt = None" then show "\<not> sublist m txt" by (rule str_find_None)
next
  assume n: "\<not> sublist m txt"
  show "str_find m txt = None"
  proof (rule ccontr)
    assume "str_find m txt \<noteq> None"
    then obtain i where "str_find m txt = Some i" by auto
    from str_find_Some[OF this] have "prefix m (drop i txt)" by simp
    then have "sublist m (drop i txt)" by (rule prefix_imp_sublist)
    then have "sublist m txt" by (metis append_take_drop_id sublist_append)
    with n show False by simp
  qed
qed

lemma first_enum_loop_keeps_Some: "first_enum_loop ms s (Some b) \<noteq> None"
  by (induction ms arbitrary: b) (auto split: option.splits)

lemma first_enum_loop_None:
  "first_enum_loop ms s best = None \<longleftrightarrow> best = None \<and> (\<forall>m \<in> set ms. str_find m s = None)"
proof (induction ms arbitrary: best)
  case Nil
  then show ?case by simp
next
  case (Cons m ms)
  show ?case
  proof (cases "str_find m s")
    case None
    then show ?thesis using Cons.IH[of best] by simp
  next
    case (Some idx)
    then show ?thesis
      using first_enum_loop_keeps_Some[of ms s] by (auto split: option.splits)
  qed
qed

lemma first_enum_loop_Some:
  "first_enum_loop ms txt best = Some r \<Longrightarrow>
     (best = Some r \<or> (snd r \<in> set ms \<and> str_find (snd r) txt = Some (fst r))) \<and>
     (\<forall>m' \<in> set ms. \<forall>j. str_find m' txt = Some j \<longrightarrow> fst r \<le> j) \<and>
     (\<forall>b. best = Some b \<longrightarrow> fst r \<le> fst b)"
proof (induction ms arbitrary: best)
  case Nil
  then show ?case by simp
next
  case (Cons m ms)
  show ?case
  proof (cases "str_find m txt")
    case None
    with Cons.prems have "first_enum_loop ms txt best = Some r" by simp
    from Cons.IH[OF this] None show ?thesis by auto
  next
    case (Some idx)
    show ?thesis
    proof (cases best)
      case None
      with Some Cons.prems have "first_enum_loop ms txt (Some (idx, m)) = Some r" by simp
      from Cons.IH[OF this] Some None show ?thesis by auto
    next
      case (Some b)
      show ?thesis
      proof (cases "idx < fst b")
        case True
        with \<open>str_find m txt = Some idx\<close> Some Cons.prems
        have "first_enum_loop ms txt (Some (idx, m)) = Some r" by simp
        from Cons.IH[OF this] \<open>str_find m txt = Some idx\<close> Some True show ?thesis by auto
      next
        case False
        with \<open>str_find m txt = Some idx\<close> Some Cons.prems
        have "first_enum_loop ms txt best = Some r" by simp
        from Cons.IH[OF this] \<open>str_find m txt = Some idx\<close> Some False show ?thesis by auto
      qed
    qed
  qed
qed

lemma find_first_enum_in_text_None:
  "find_first_enum_in_text members txt = None \<longleftrightarrow> (\<forall>m \<in> set members. \<not> sublist m txt)"
  by (simp add: find_first_enum_in_text_def first_enum_loop_None str_find_None_iff)

lemma find_first_enum_in_text_Some:
  assumes "find_first_enum_in_text members txt = Some m"
  shows "m \<in> set members \<and>
         (\<exists>i. str_find m txt = Some i \<and>
              (\<forall>m' \<in> set members. \<forall>j. str_find m' txt = Some j \<longrightarrow> i \<le> j))"
proof -
  from assms obtain r where r: "first_enum_loop members txt None = Some r" "snd r = m"
    by (auto simp: find_first_enum_in_text_def)
  from first_enum_loop_Some[OF r(1)] r(2) show ?thesis by auto
qed

lemma dedup_acc_set: "set (dedup_acc seen xs) = set xs - set seen"
  by (induction xs arbitrary: seen) auto

lemma dedup_set [simp]: "set (dedup xs) = set xs"
  by (simp add: dedup_def dedup_acc_set)

lemma dedup_acc_distinct: "distinct (dedup_acc seen xs)"
  by (induction xs arbitrary: seen) (auto simp: dedup_acc_set)

lemma dedup_distinct [simp]: "distinct (dedup xs)"
  by (simp add: dedup_def dedup_acc_distinct)

lemma finditer_elem:
  "(p, g) \<in> set (finditer m pos skip s) \<Longrightarrow>
     pos + skip \<le> p \<and> p < pos + length s \<and> (\<exists>len. m (drop (p - pos) s) = Some (g, len))"
proof (induction s arbitrary: pos skip)
  case Nil
  then show ?case by simp
next
  case (Cons c cs)
  have step: "\<And>sk. (p, g) \<in> set (finditer m (Suc pos) sk cs) \<Longrightarrow>
     Suc pos + sk \<le> p \<and> p < pos + length (c # cs) \<and>
     (\<exists>len. m (drop (p - pos) (c # cs)) = Some (g, len))"
  proof -
    fix sk assume "(p, g) \<in> set (finditer m (Suc pos) sk cs)"
    from Cons.IH[OF this] have ih: "Suc pos + sk \<le> p" "p < Suc pos + length cs"
      "\<exists>len. m (drop (p - Suc pos) cs) = Some (g, len)" by auto
    from ih(1) have "p - pos = Suc (p - Suc pos)" by simp
    then have "drop (p - pos) (c # cs) = drop (p - Suc pos) cs" by simp
    with ih show "Suc pos + sk \<le> p \<and> p < pos + length (c # cs) \<and>
     (\<exists>len. m (drop (p - pos) (c # cs)) = Some (g, len))" by simp
  qed
  show ?case
  proof (cases "skip > 0")
    case True
    with Cons.prems have "(p, g) \<in> set (finditer m (Suc pos) (skip - 1) cs)" by simp
    from step[OF this] True show ?thesis by simp
  next
    case False
    show ?thesis
    proof (cases "m (c # cs)")
      case None
      with False Cons.prems have "(p, g) \<in> set (finditer m (Suc pos) 0 cs)" by simp
      from step[OF this] False show ?thesis by simp
    next
      case (Some r)
      obtain g0 len where r: "r = (g0, len)" by (cases r)
      with Some False Cons.prems
      have "(p, g) = (pos, g0) \<or> (p, g) \<in> set (finditer m (Suc pos) (len - 1) cs)" by simp
      then show ?thesis
      proof
        assume "(p, g) = (pos, g0)"
        with Some r False show ?thesis by simp
      next
        assume "(p, g) \<in> set (finditer m (Suc pos) (len - 1) cs)"
        from step[OF this] False show ?thesis by simp
      qed
    qed
  qed
qed

lemma finditer_sorted: "sorted_wrt (<) (map fst (finditer m pos skip s))"
proof (induction s arbitrary: pos skip)
  case Nil
  then show ?case by simp
next
  case (Cons c cs)
  have later: "\<And>sk x. x \<in> set (finditer m (Suc pos) sk cs) \<Longrightarrow> pos < fst x"
    using finditer_elem[of _ _ m "Suc pos" _ cs] by (metis Suc_le_lessD add_leD1 prod.collapse)
  show ?case
    using Cons[of "Suc pos"] later by (auto split: option.splits)
qed

lemma guard_at_none:
  "\<forall>m \<in> set if_matches. \<not> fst m < a \<Longrightarrow> guard_at if_matches a = ''1''"
  by (simp add: guard_at_def Let_def filter_empty_conv)

lemma sorted_last_max:
  "sorted_wrt (<) (map fst xs) \<Longrightarrow> x \<in> set xs \<Longrightarrow> (fst x :: nat) \<le> fst (last xs)"
proof (induction xs)
  case Nil
  then show ?case by simp
next
  case (Cons y ys)
  show ?case
  proof (cases "ys = []")
    case True
    with Cons.prems show ?thesis by simp
  next
    case False
    then have l: "last (y # ys) = last ys" by simp
    from False have "last ys \<in> set ys" by (rule last_in_set)
    with Cons.prems(1) have "fst y < fst (last ys)" by auto
    moreover have "x \<in> set ys \<Longrightarrow> fst x \<le> fst (last ys)"
      using Cons.IH Cons.prems(1) by simp
    ultimately show ?thesis using Cons.prems(2) l by auto
  qed
qed

lemma guard_at_last:
  assumes "sorted_wrt (<) (map fst if_matches)" and "\<exists>m \<in> set if_matches. fst m < a"
  shows "\<exists>m \<in> set if_matches. fst m < a \<and> guard_at if_matches a = strip (snd m) \<and>
           (\<forall>m' \<in> set if_matches. fst m' < a \<longrightarrow> fst m' \<le> fst m)"
proof -
  let ?prev = "filter (\<lambda>m. fst m < a) if_matches"
  from assms(2) have ne: "?prev \<noteq> []" by (auto simp: filter_empty_conv)
  then have g: "guard_at if_matches a = strip (snd (last ?prev))"
    by (simp add: guard_at_def Let_def)
  have lin: "last ?prev \<in> set ?prev" using ne by (rule last_in_set)
  have srt: "sorted_wrt (<) (map fst ?prev)"
    using assms(1) by (induction if_matches) auto
  have mx: "\<forall>m' \<in> set ?prev. fst m' \<le> fst (last ?prev)"
    using sorted_last_max[OF srt] by blast
  have "last ?prev \<in> set if_matches" "fst (last ?prev) < a" using lin by simp_all
  moreover have "\<forall>m' \<in> set if_matches. fst m' < a \<longrightarrow> fst m' \<le> fst (last ?prev)"
    using mx by auto
  ultimately show ?thesis using g by blast
qed

lemma dropWhile_split:
  "dropWhile P xs = y # ys \<Longrightarrow> \<exists>ws. xs = ws @ y # ys \<and> (\<forall>c \<in> set ws. P c) \<and> ws = takeWhile P xs \<and> \<not> P y"
  by (metis takeWhile_dropWhile_id set_takeWhileD hd_dropWhile list.sel(1) list.distinct(1))

lemma match_if_Some:
  assumes "match_if s = Some (g, len)"
  shows "\<exists>ws rest. s = ''if'' @ ws @ ''('' @ g @ '')'' @ rest \<and> (\<forall>c \<in> set ws. is_space c) \<and>
           CHR '')'' \<notin> set g \<and> newline \<notin> set g \<and> len = length ws + length g + 4"
proof -
  from assms have p: "prefix ''if'' s" by (auto simp: match_if_def split: if_splits)
  then obtain t where s: "s = ''if'' @ t" by (auto simp: prefix_def)
  then have t: "drop 2 s = t" by simp
  from assms p obtain c r where r1: "dropWhile is_space t = c # r"
    unfolding t[symmetric] by (auto simp: match_if_def split: if_splits list.splits)
  with assms p have c: "c = CHR ''(''"
    by (auto simp: match_if_def t split: if_splits list.splits)
  from dropWhile_split[OF r1] c obtain ws where ws: "t = ws @ CHR ''('' # r" "\<forall>c \<in> set ws. is_space c"
    by blast
  define P where "P = (\<lambda>x. x \<noteq> CHR '')'' \<and> x \<noteq> newline)"
  have mi: "match_if s = (case drop (length (takeWhile P r)) r of
                  [] \<Rightarrow> None
                | d # _ \<Rightarrow>
                    if d = CHR '')'' then Some (takeWhile P r, length s - length r + length (takeWhile P r) + 1)
                    else None)"
    using p r1 c by (simp add: match_if_def t Let_def P_def cong: list.case_cong if_cong)
  have dd: "drop (length (takeWhile P r)) r = dropWhile P r" by (simp add: dropWhile_eq_drop)
  from assms obtain d rest where r2: "dropWhile P r = d # rest"
    unfolding mi dd by (cases "dropWhile P r") auto
  with assms have d: "d = CHR '')''" and g: "g = takeWhile P r"
    and len: "len = length s - length r + length g + 1"
    unfolding mi dd by (auto split: if_splits)
  from dropWhile_split[OF r2] d g have r: "r = g @ CHR '')'' # rest" "\<forall>c \<in> set g. P c"
    by auto
  have full: "s = ''if'' @ ws @ ''('' @ g @ '')'' @ rest"
    unfolding s ws(1) using r(1) by simp
  have ng: "CHR '')'' \<notin> set g \<and> newline \<notin> set g" using r(2) by (auto simp: P_def)
  have "length s = 2 + length ws + 1 + length r" unfolding s ws(1) by simp
  then have "len = length ws + length g + 4" using len by simp
  with full ws(2) ng show ?thesis by blast
qed

lemma match_assign_Some:
  assumes "match_assign lhs s = Some (name, len)"
  shows "\<exists>ws1 op ws2 rest. s = lhs @ ws1 @ op @ ws2 @ name @ rest \<and>
           (\<forall>c \<in> set ws1. is_space c) \<and> (op = ''='' \<or> op = ''<='') \<and> (\<forall>c \<in> set ws2. is_space c) \<and>
           name \<noteq> [] \<and> is_alpha_us (hd name) \<and> (\<forall>c \<in> set (tl name). is_word c) \<and>
           (rest = [] \<or> \<not> is_word (hd rest)) \<and>
           len = length lhs + length ws1 + length op + length ws2 + length name"
proof -
  from assms have p: "prefix lhs s" by (auto simp: match_assign_def split: if_splits)
  then obtain t where s: "s = lhs @ t" by (auto simp: prefix_def)
  then have t: "drop (length lhs) s = t" by simp
  define r1 where "r1 = dropWhile is_space t"
  define r2 where "r2 = (case r1 of [] \<Rightarrow> r1 | c # r \<Rightarrow> if c = CHR ''<'' then r else r1)"
  have ma: "match_assign lhs s =
        (case r2 of
           [] \<Rightarrow> None
         | e # r3 \<Rightarrow>
             if e = CHR ''='' then
               (case dropWhile is_space r3 of
                  [] \<Rightarrow> None
                | a # r4 \<Rightarrow>
                    if is_alpha_us a then
                      Some (a # takeWhile is_word r4, length s - length r4 + length (takeWhile is_word r4))
                    else None)
             else None)"
    using p by (simp add: match_assign_def Let_def t r1_def r2_def cong: list.case_cong if_cong)
  from assms obtain e r3 where r2: "r2 = e # r3"
    unfolding ma by (cases r2) auto
  with assms have e: "e = CHR ''=''"
    unfolding ma by (simp split: if_splits)
  have "\<exists>op. (op = ''='' \<or> op = ''<='') \<and> r1 = op @ r3"
  proof (cases r1)
    case Nil
    with r2 show ?thesis by (simp add: r2_def)
  next
    case (Cons c r)
    show ?thesis
    proof (cases "c = CHR ''<''")
      case True
      with Cons r2 e have "r1 = ''<='' @ r3" by (simp add: r2_def)
      then show ?thesis by blast
    next
      case False
      with Cons r2 e have "r1 = ''='' @ r3" by (simp add: r2_def)
      then show ?thesis by blast
    qed
  qed
  then obtain op where op: "op = ''='' \<or> op = ''<=''" "r1 = op @ r3" by blast
  from op obtain o1 orest where o1: "r1 = o1 # orest" "op @ r3 = o1 # orest" by (cases r1) auto
  from dropWhile_split[OF o1(1)[unfolded r1_def]] obtain ws1 where
    ws1: "t = ws1 @ o1 # orest" "\<forall>c \<in> set ws1. is_space c" by blast
  from assms r2 e obtain a r4 where r4: "dropWhile is_space r3 = a # r4"
    unfolding ma by (cases "dropWhile is_space r3") auto
  with assms r2 e have a: "is_alpha_us a"
    and name: "name = a # takeWhile is_word r4"
    and len: "len = length s - length r4 + length (takeWhile is_word r4)"
    unfolding ma by (auto split: if_splits)
  from dropWhile_split[OF r4] obtain ws2 where
    ws2: "r3 = ws2 @ a # r4" "\<forall>c \<in> set ws2. is_space c" by blast
  define nm_tail where "nm_tail = takeWhile is_word r4"
  define rest where "rest = dropWhile is_word r4"
  have r4s: "r4 = nm_tail @ rest" by (simp add: nm_tail_def rest_def)
  have tl: "\<forall>c \<in> set nm_tail. is_word c" unfolding nm_tail_def by (metis set_takeWhileD)
  have rst: "rest = [] \<or> \<not> is_word (hd rest)" unfolding rest_def by (metis hd_dropWhile)
  have name': "name = a # nm_tail" using name by (simp add: nm_tail_def)
  have len': "len = length s - length r4 + length nm_tail" using len by (simp add: nm_tail_def)
  have tt: "t = ws1 @ op @ ws2 @ name @ rest"
    unfolding ws1(1) o1(2)[symmetric] ws2(1) name' r4s by simp
  have full: "s = lhs @ ws1 @ op @ ws2 @ name @ rest" unfolding s tt by simp
  have "length s = length lhs + length ws1 + length op + length ws2 + 1 + length nm_tail + length rest"
    unfolding full name' by simp
  moreover have "length r4 = length nm_tail + length rest" unfolding r4s by simp
  ultimately have "len = length lhs + length ws1 + length op + length ws2 + length name"
    using len' name' by simp
  moreover have "name \<noteq> [] \<and> is_alpha_us (hd name) \<and> (\<forall>c \<in> set (tl name). is_word c)"
    using name' a tl by simp
  ultimately show ?thesis using full ws1(2) ws2(2) op(1) rst by blast
qed

lemma str_find_le:
  assumes "prefix m (drop j s)" "j \<le> length s"
  shows "\<exists>j' \<le> j. str_find m s = Some j'"
proof -
  from assms(1) have "sublist m (drop j s)" by (rule prefix_imp_sublist)
  then have "sublist m s" by (metis append_take_drop_id sublist_append)
  then obtain j' where j': "str_find m s = Some j'"
    using str_find_None_iff[of m s] by auto
  from str_find_Some[OF j'] assms(1) have "j' \<le> j" by (meson not_le)
  with j' show ?thesis by blast
qed

lemma item_transitions_set:
  assumes "collect_identifiers_inline item = s"
  shows "set (item_transitions lhs_name members item) =
     (case find_first_enum_in_text members s of
        None \<Rightarrow> {}
      | Some f \<Rightarrow>
          if f = [] \<or> s = [] then {}
          else (\<lambda>am. \<lparr>t_from = Some f, t_to = Some (snd am),
                        t_cond = Some (guard_at (finditer match_if 0 0 s) (fst am))\<rparr>) `
               {am \<in> set (finditer (match_assign lhs_name) 0 0 s). snd am \<in> set members})"
proof (cases "find_first_enum_in_text members s")
  case None
  then show ?thesis using assms by (simp add: item_transitions_def Let_def)
next
  case (Some f)
  show ?thesis
  proof (cases "f = [] \<or> s = []")
    case True
    with Some assms show ?thesis by (auto simp: item_transitions_def Let_def)
  next
    case False
    have "set (item_transitions lhs_name members item) =
          (\<lambda>(to_state, cond). \<lparr>t_from = Some f, t_to = Some to_state, t_cond = Some cond\<rparr>) `
            set (find_assignments_with_conditions s lhs_name members)"
      using False Some assms by (simp add: item_transitions_def Let_def)
    also have "set (find_assignments_with_conditions s lhs_name members) =
          (\<lambda>am. (snd am, guard_at (finditer match_if 0 0 s) (fst am))) `
            {am \<in> set (finditer (match_assign lhs_name) 0 0 s). snd am \<in> set members}"
      by (simp add: find_assignments_with_conditions_def Let_def)
    finally show ?thesis using False Some by (simp add: image_image)
  qed
qed

lemma close_paren_flat:
  "CHR ''('' \<notin> set g \<Longrightarrow> CHR '')'' \<notin> set g \<Longrightarrow> close_paren 0 (g @ CHR '')'' # rest) = Some g"
  by (induction g) auto

lemma match_if_flat_condition:
  assumes "match_if s = Some (g, len)" and "CHR ''('' \<notin> set g"
  shows "if_condition s = Some g"
proof -
  from match_if_Some[OF assms(1)] obtain ws rest where
    s: "s = ''if'' @ ws @ ''('' @ g @ '')'' @ rest" and ws: "\<forall>c \<in> set ws. is_space c"
    and g: "CHR '')'' \<notin> set g" by blast
  have "\<not> is_space (CHR ''('')" by (simp add: is_space_def)
  with ws have "dropWhile is_space (ws @ CHR ''('' # g @ CHR '')'' # rest) = CHR ''('' # g @ CHR '')'' # rest"
    by (simp add: dropWhile_append3)
  then show ?thesis
    unfolding s using close_paren_flat[OF assms(2) g, of rest] by (simp add: if_condition_def)
qed

text \<open>
  Claim C4 as stated fails on a condition that contains parentheses. The branch
  \<^verbatim>\<open>A: if ((x) && y) nxt = B\<close> has one \<^verbatim>\<open>if\<close>, at offset 2, before the assignment at
  offset 12; its condition is \<^verbatim>\<open>(x)&&y\<close>, but the guard of the edge produced is
  \<^verbatim>\<open>(x\<close>: the pattern's group stops at the first closing parenthesis.
\<close>

theorem nested_condition_truncated:
  "collect_identifiers_inline item_nested = ''A:if((x)&&y)nxt=B'' \<and>
   finditer match_if 0 0 ''A:if((x)&&y)nxt=B'' = [(2, ''(x'')] \<and>
   finditer (match_assign ''nxt'') 0 0 ''A:if((x)&&y)nxt=B'' = [(12, ''B'')] \<and>
   if_condition (drop 2 ''A:if((x)&&y)nxt=B'') = Some ''(x)&&y'' \<and>
   item_transitions ''nxt'' [''A'', ''B''] item_nested =
     [\<lparr>t_from = Some ''A'', t_to = Some ''B'', t_cond = Some ''(x''\<rparr>]"
  by code_simp

text \<open>
  What the builder does on every case item (branch) with text \<open>s\<close>: the parts of claim
  C4 that hold, and the guard as the code computes it.
  \<^item> The \<^verbatim>\<open>from\<close> state is a member with an occurrence in \<open>s\<close> at the least offset at
    which any member occurs; if no member occurs the item produces no edge (and no
    error).
  \<^item> Otherwise the edges are exactly one edge for every match of the assignment pattern
    (the write target, optional white space, \<^verbatim>\<open>=\<close> or \<^verbatim>\<open><=\<close>, optional white space, a
    whole identifier) whose identifier is a member; \<open>lhs_name\<close> is the write target.
  \<^item> The guard of the edge for the assignment at offset \<open>a\<close> is \<^verbatim>\<open>1\<close> if no
    \<^verbatim>\<open>if\<close>-match starts before \<open>a\<close>; otherwise it is the stripped group of the match with
    the greatest start offset below \<open>a\<close>.
  \<^item> An \<^verbatim>\<open>if\<close>-match is \<^verbatim>\<open>if\<close>, optional white space, \<^verbatim>\<open>(\<close>, a group without closing
    parenthesis and without newline, and \<^verbatim>\<open>)\<close>: the group is the text up to the first
    closing parenthesis. It is the condition of the \<^verbatim>\<open>if\<close> whenever it contains no
    opening parenthesis.
\<close>

theorem case_item_edges:
  assumes "collect_identifiers_inline item = s"
  shows
  "(find_first_enum_in_text members s = None \<longleftrightarrow> (\<forall>m \<in> set members. \<not> sublist m s)) \<and>
   (\<forall>f. find_first_enum_in_text members s = Some f \<longrightarrow>
      f \<in> set members \<and>
      (\<exists>i \<le> length s. prefix f (drop i s) \<and>
         (\<forall>m' \<in> set members. \<forall>j \<le> length s. prefix m' (drop j s) \<longrightarrow> i \<le> j))) \<and>
   ((\<forall>m \<in> set members. \<not> sublist m s) \<longrightarrow> item_transitions lhs_name members item = []) \<and>
   (\<forall>f. find_first_enum_in_text members s = Some f \<and> f \<noteq> [] \<longrightarrow>
      set (item_transitions lhs_name members item) =
        (\<lambda>am. \<lparr>t_from = Some f, t_to = Some (snd am),
                 t_cond = Some (guard_at (finditer match_if 0 0 s) (fst am))\<rparr>) `
        {am \<in> set (finditer (match_assign lhs_name) 0 0 s). snd am \<in> set members}) \<and>
   (\<forall>a. (\<forall>m \<in> set (finditer match_if 0 0 s). \<not> fst m < a) \<longrightarrow>
      guard_at (finditer match_if 0 0 s) a = ''1'') \<and>
   (\<forall>a. (\<exists>m \<in> set (finditer match_if 0 0 s). fst m < a) \<longrightarrow>
      (\<exists>m \<in> set (finditer match_if 0 0 s).
         fst m < a \<and> guard_at (finditer match_if 0 0 s) a = strip (snd m) \<and>
         (\<forall>m' \<in> set (finditer match_if 0 0 s). fst m' < a \<longrightarrow> fst m' \<le> fst m))) \<and>
   (\<forall>m \<in> set (finditer match_if 0 0 s).
      fst m < length s \<and>
      (\<exists>ws rest. drop (fst m) s = ''if'' @ ws @ ''('' @ snd m @ '')'' @ rest \<and>
         (\<forall>c \<in> set ws. is_space c) \<and> CHR '')'' \<notin> set (snd m) \<and> newline \<notin> set (snd m)) \<and>
      (CHR ''('' \<notin> set (snd m) \<longrightarrow> if_condition (drop (fst m) s) = Some (snd m))) \<and>
   (\<forall>am \<in> set (finditer (match_assign lhs_name) 0 0 s).
      fst am < length s \<and>
      (\<exists>ws1 op ws2 rest. drop (fst am) s = lhs_name @ ws1 @ op @ ws2 @ snd am @ rest \<and>
         (\<forall>c \<in> set ws1. is_space c) \<and> (op = ''='' \<or> op = ''<='') \<and> (\<forall>c \<in> set ws2. is_space c) \<and>
         snd am \<noteq> [] \<and> is_alpha_us (hd (snd am)) \<and> (\<forall>c \<in> set (tl (snd am)). is_word c) \<and>
         (rest = [] \<or> \<not> is_word (hd rest))))"
proof -
  let ?ifs = "finditer match_if 0 0 s"
  let ?asg = "finditer (match_assign lhs_name) 0 0 s"
  have c1: "find_first_enum_in_text members s = None \<longleftrightarrow> (\<forall>m \<in> set members. \<not> sublist m s)"
    by (rule find_first_enum_in_text_None)
  have c2: "\<forall>f. find_first_enum_in_text members s = Some f \<longrightarrow>
      f \<in> set members \<and>
      (\<exists>i \<le> length s. prefix f (drop i s) \<and>
         (\<forall>m' \<in> set members. \<forall>j \<le> length s. prefix m' (drop j s) \<longrightarrow> i \<le> j))"
  proof (intro allI impI)
    fix f assume "find_first_enum_in_text members s = Some f"
    from find_first_enum_in_text_Some[OF this] obtain i where
      f: "f \<in> set members" and i: "str_find f s = Some i" and
      mn: "\<forall>m' \<in> set members. \<forall>j. str_find m' s = Some j \<longrightarrow> i \<le> j" by blast
    from str_find_Some[OF i] have i1: "i \<le> length s" "prefix f (drop i s)" by auto
    have "\<forall>m' \<in> set members. \<forall>j \<le> length s. prefix m' (drop j s) \<longrightarrow> i \<le> j"
    proof (intro ballI allI impI)
      fix m' j assume m': "m' \<in> set members" and j: "j \<le> length s" and pj: "prefix m' (drop j s)"
      from str_find_le[OF pj j] obtain j' where "j' \<le> j" "str_find m' s = Some j'" by blast
      with mn m' show "i \<le> j" by force
    qed
    with f i1 show "f \<in> set members \<and>
      (\<exists>i \<le> length s. prefix f (drop i s) \<and>
         (\<forall>m' \<in> set members. \<forall>j \<le> length s. prefix m' (drop j s) \<longrightarrow> i \<le> j))" by blast
  qed
  have c3: "(\<forall>m \<in> set members. \<not> sublist m s) \<longrightarrow> item_transitions lhs_name members item = []"
  proof
    assume "\<forall>m \<in> set members. \<not> sublist m s"
    with c1 have "find_first_enum_in_text members s = None" by simp
    with item_transitions_set[OF assms, of lhs_name members]
    show "item_transitions lhs_name members item = []" by simp
  qed
  have c4: "\<forall>f. find_first_enum_in_text members s = Some f \<and> f \<noteq> [] \<longrightarrow>
      set (item_transitions lhs_name members item) =
        (\<lambda>am. \<lparr>t_from = Some f, t_to = Some (snd am),
                 t_cond = Some (guard_at ?ifs (fst am))\<rparr>) `
        {am \<in> set ?asg. snd am \<in> set members}"
  proof (intro allI impI)
    fix f assume h: "find_first_enum_in_text members s = Some f \<and> f \<noteq> []"
    with c2 obtain i where "i \<le> length s" "prefix f (drop i s)" by blast
    with h have "s \<noteq> []" by auto
    with h item_transitions_set[OF assms, of lhs_name members]
    show "set (item_transitions lhs_name members item) =
        (\<lambda>am. \<lparr>t_from = Some f, t_to = Some (snd am),
                 t_cond = Some (guard_at ?ifs (fst am))\<rparr>) `
        {am \<in> set ?asg. snd am \<in> set members}" by simp
  qed
  have c5: "\<forall>a. (\<forall>m \<in> set ?ifs. \<not> fst m < a) \<longrightarrow> guard_at ?ifs a = ''1''"
    using guard_at_none by blast
  have c6: "\<forall>a. (\<exists>m \<in> set ?ifs. fst m < a) \<longrightarrow>
      (\<exists>m \<in> set ?ifs. fst m < a \<and> guard_at ?ifs a = strip (snd m) \<and>
         (\<forall>m' \<in> set ?ifs. fst m' < a \<longrightarrow> fst m' \<le> fst m))"
    using guard_at_last[OF finditer_sorted[of match_if 0 0 s]] by blast
  have c7: "\<forall>m \<in> set ?ifs.
      fst m < length s \<and>
      (\<exists>ws rest. drop (fst m) s = ''if'' @ ws @ ''('' @ snd m @ '')'' @ rest \<and>
         (\<forall>c \<in> set ws. is_space c) \<and> CHR '')'' \<notin> set (snd m) \<and> newline \<notin> set (snd m)) \<and>
      (CHR ''('' \<notin> set (snd m) \<longrightarrow> if_condition (drop (fst m) s) = Some (snd m))"
  proof
    fix m assume "m \<in> set ?ifs"
    then have "(fst m, snd m) \<in> set ?ifs" by simp
    from finditer_elem[OF this] obtain len where
      l: "fst m < length s" and mm: "match_if (drop (fst m) s) = Some (snd m, len)" by auto
    from match_if_Some[OF mm] l match_if_flat_condition[OF mm] show "fst m < length s \<and>
      (\<exists>ws rest. drop (fst m) s = ''if'' @ ws @ ''('' @ snd m @ '')'' @ rest \<and>
         (\<forall>c \<in> set ws. is_space c) \<and> CHR '')'' \<notin> set (snd m) \<and> newline \<notin> set (snd m)) \<and>
      (CHR ''('' \<notin> set (snd m) \<longrightarrow> if_condition (drop (fst m) s) = Some (snd m))" by blast
  qed
  have c8: "\<forall>am \<in> set ?asg.
      fst am < length s \<and>
      (\<exists>ws1 op ws2 rest. drop (fst am) s = lhs_name @ ws1 @ op @ ws2 @ snd am @ rest \<and>
         (\<forall>c \<in> set ws1. is_space c) \<and> (op = ''='' \<or> op = ''<='') \<and> (\<forall>c \<in> set ws2. is_space c) \<and>
         snd am \<noteq> [] \<and> is_alpha_us (hd (snd am)) \<and> (\<forall>c \<in> set (tl (snd am)). is_word c) \<and>
         (rest = [] \<or> \<not> is_word (hd rest)))"
  proof
    fix am assume "am \<in> set ?asg"
    then have "(fst am, snd am) \<in> set ?asg" by simp
    from finditer_elem[OF this] obtain len where
      l: "fst am < length s" and mm: "match_assign lhs_name (drop (fst am) s) = Some (snd am, len)" by auto
    from match_assign_Some[OF mm] l show "fst am < length s \<and>
      (\<exists>ws1 op ws2 rest. drop (fst am) s = lhs_name @ ws1 @ op @ ws2 @ snd am @ rest \<and>
         (\<forall>c \<in> set ws1. is_space c) \<and> (op = ''='' \<or> op = ''<='') \<and> (\<forall>c \<in> set ws2. is_space c) \<and>
         snd am \<noteq> [] \<and> is_alpha_us (hd (snd am)) \<and> (\<forall>c \<in> set (tl (snd am)). is_word c) \<and>
         (rest = [] \<or> \<not> is_word (hd rest)))" by blast
  qed
  from c1 c2 c3 c4 c5 c6 c7 c8 show ?thesis by (intro conjI)
qed

theorem case_item_edges_witness:
  "collect_identifiers_inline item_example = ''A:if(x)nxt=B'' \<and>
   find_first_enum_in_text [''A'', ''B''] ''A:if(x)nxt=B'' = Some ''A'' \<and>
   set (item_transitions ''nxt'' [''A'', ''B''] item_example) =
     {\<lparr>t_from = Some ''A'', t_to = Some ''B'', t_cond = Some ''x''\<rparr>} \<and>
   item_transitions ''nxt'' [''A'', ''B''] item_default = []"
proof -
  have t: "collect_identifiers_inline item_example = ''A:if(x)nxt=B''" by code_simp
  have f: "find_first_enum_in_text [''A'', ''B''] ''A:if(x)nxt=B'' = Some ''A''" by code_simp
  have asg: "finditer (match_assign ''nxt'') 0 0 ''A:if(x)nxt=B'' = [(7, ''B'')]" by code_simp
  have g: "guard_at (finditer match_if 0 0 ''A:if(x)nxt=B'') 7 = ''x''" by code_simp
  from case_item_edges[OF t, of "[''A'', ''B'']" "''nxt''"] f
  have "set (item_transitions ''nxt'' [''A'', ''B''] item_example) =
        (\<lambda>am. \<lparr>t_from = Some ''A'', t_to = Some (snd am),
                 t_cond = Some (guard_at (finditer match_if 0 0 ''A:if(x)nxt=B'') (fst am))\<rparr>) `
        {am \<in> set (finditer (match_assign ''nxt'') 0 0 ''A:if(x)nxt=B''). snd am \<in> set [''A'', ''B'']}"
    by blast
  also have "\<dots> = {\<lparr>t_from = Some ''A'', t_to = Some ''B'', t_cond = Some ''x''\<rparr>}"
    unfolding asg using g by auto
  finally have e: "set (item_transitions ''nxt'' [''A'', ''B''] item_example) =
     {\<lparr>t_from = Some ''A'', t_to = Some ''B'', t_cond = Some ''x''\<rparr>}" .
  have td: "collect_identifiers_inline item_default = ''default:nxt=state''" by code_simp
  have "\<forall>m \<in> set [''A'', ''B'']. \<not> sublist m ''default:nxt=state''" by code_simp
  with case_item_edges[OF td, of "[''A'', ''B'']" "''nxt''"]
  have "item_transitions ''nxt'' [''A'', ''B''] item_default = []" by blast
  with t f e show ?thesis by blast
qed

section \<open>Invariants of the extracted graphs\<close>

lemma unique_by_subset: "set (unique_by key seen xs) \<subseteq> set xs"
  by (induction xs arbitrary: seen) auto

lemma unique_by_keys: "x \<in> set (unique_by key seen xs) \<Longrightarrow> key x \<notin> set seen"
proof (induction xs arbitrary: seen)
  case Nil
  then show ?case by simp
next
  case (Cons y ys)
  show ?case
  proof (cases "key y \<in> set seen")
    case True
    with Cons.prems have "x \<in> set (unique_by key seen ys)" by simp
    then show ?thesis by (rule Cons.IH)
  next
    case False
    with Cons.prems have "x = y \<or> x \<in> set (unique_by key (key y # seen) ys)" by simp
    then show ?thesis
    proof
      assume "x = y" with False show ?thesis by simp
    next
      assume "x \<in> set (unique_by key (key y # seen) ys)"
      from Cons.IH[OF this] show ?thesis by simp
    qed
  qed
qed

lemma unique_by_distinct: "distinct (map key (unique_by key seen xs))"
proof (induction xs arbitrary: seen)
  case Nil
  then show ?case by simp
next
  case (Cons x xs)
  show ?case
  proof (cases "key x \<in> set seen")
    case True
    then show ?thesis using Cons by simp
  next
    case False
    have "key x \<notin> key ` set (unique_by key (key x # seen) xs)"
    proof
      assume "key x \<in> key ` set (unique_by key (key x # seen) xs)"
      then obtain y where "y \<in> set (unique_by key (key x # seen) xs)" "key y = key x" by auto
      with unique_by_keys[of y key "key x # seen" xs] show False by simp
    qed
    then show ?thesis using False Cons by simp
  qed
qed

lemma item_transitions_endpoints:
  assumes "t \<in> set (item_transitions lhs_name members item)"
  shows "t_from t \<in> Some ` set members \<and> t_to t \<in> Some ` set members"
proof -
  let ?s = "collect_identifiers_inline item"
  from assms item_transitions_set[OF refl, of lhs_name members item]
  obtain f where f: "find_first_enum_in_text members ?s = Some f"
    and t: "t \<in> (\<lambda>am. \<lparr>t_from = Some f, t_to = Some (snd am),
                        t_cond = Some (guard_at (finditer match_if 0 0 ?s) (fst am))\<rparr>) `
               {am \<in> set (finditer (match_assign lhs_name) 0 0 ?s). snd am \<in> set members}"
    by (cases "find_first_enum_in_text members ?s") (auto split: if_splits)
  from find_first_enum_in_text_Some[OF f] have "f \<in> set members" by simp
  with t show ?thesis by auto
qed

lemma build_transitions_endpoints:
  assumes "t \<in> set (build_transitions_from_cases case_nodes sv nsv members)"
  shows "t_from t \<in> Some ` set members \<and> t_to t \<in> Some ` set members"
  using assms item_transitions_endpoints
  by (auto simp: build_transitions_from_cases_def Let_def split: if_splits)

lemma dict_set_values: "set (dict_set k v d) \<subseteq> insert (k, v) (set d)"
  by (induction d) (auto split: if_splits)

lemma dict_get_mem: "dict_get d k = Some v \<Longrightarrow> (k, v) \<in> set d"
  by (simp add: dict_get_def map_of_SomeD)

lemma enum_index_values:
  "(k, ev) \<in> set (fold (\<lambda>ev d. dict_set (ev_scope ev, ev_var_name ev) ev d) vars d0) \<Longrightarrow>
     (k, ev) \<in> set d0 \<or> (ev \<in> set vars \<and> k = (ev_scope ev, ev_var_name ev))"
proof (induction vars arbitrary: d0)
  case Nil
  then show ?case by simp
next
  case (Cons v vars)
  from Cons.IH[OF Cons.prems[simplified]] dict_set_values[of "(ev_scope v, ev_var_name v)" v d0]
  show ?case by auto
qed

lemma group_graph_invariants:
  assumes "g \<in> set (group_graph scope_nodes enum_index grp)"
  shows "(\<forall>t \<in> set (g_transitions g). t_from t \<in> Some ` set (g_states g) \<and> t_to t \<in> Some ` set (g_states g)) \<and>
         (\<forall>r. g_reset_state g = Some r \<longrightarrow> r \<in> set (g_states g)) \<and>
         distinct (map transition_key (g_transitions g)) \<and>
         g_states g \<noteq> [] \<and>
         g_num_states g = length (g_states g) \<and> g_num_transitions g = length (g_transitions g) \<and>
         g_scope g = Some (fst (fst grp)) \<and> g_enum_name g = Some (snd (fst grp)) \<and>
         (\<exists>v \<in> set (snd grp). \<exists>ev. dict_get enum_index (fst (fst grp), ev_var_name v) = Some ev \<and>
              g_states g = ev_enum_members ev)"
proof -
  let ?scope = "fst (fst grp)"
  from assms obtain scope_node where sn: "dict_get scope_nodes ?scope = Some scope_node"
    by (cases "dict_get scope_nodes ?scope") (auto simp: group_graph_def Let_def)
  let ?cands = "filter (\<lambda>v. dict_get enum_index (?scope, ev_var_name v) \<noteq> None) (snd grp)"
  define members where "members = (case ?cands of [] \<Rightarrow> []
       | v # _ \<Rightarrow> ev_enum_members (the (dict_get enum_index (?scope, ev_var_name v))))"
  obtain sv_opt nsv where ch: "choose_state_and_next scope_node (snd grp) = (sv_opt, nsv)"
    by (cases "choose_state_and_next scope_node (snd grp)")
  define sv where "sv = py_str sv_opt"
  define trans where "trans = build_transitions_from_cases (find_case_nodes_on_state scope_node sv) sv nsv members"
  define reset where "reset = detect_reset_state (collect_always_nodes scope_node) sv members"
  have gg: "group_graph scope_nodes enum_index grp =
     (if members = [] then []
      else if \<not> truthy sv_opt then []
      else [\<lparr>g_scope = Some ?scope, g_state_var = Some sv, g_next_state_var = nsv,
              g_enum_name = Some (snd (fst grp)), g_states = members, g_reset_state = reset,
              g_transitions = unique_by transition_key [] trans,
              g_num_states = length members,
              g_num_transitions = length (unique_by transition_key [] trans)\<rparr>])"
    using sn ch
    by (simp add: group_graph_def Let_def members_def sv_def trans_def reset_def cong: list.case_cong)
  from assms have ne: "members \<noteq> []" and
    g: "g = \<lparr>g_scope = Some ?scope, g_state_var = Some sv, g_next_state_var = nsv,
              g_enum_name = Some (snd (fst grp)), g_states = members, g_reset_state = reset,
              g_transitions = unique_by transition_key [] trans,
              g_num_states = length members,
              g_num_transitions = length (unique_by transition_key [] trans)\<rparr>"
    unfolding gg by (auto split: if_splits)
  have a: "\<forall>t \<in> set (g_transitions g). t_from t \<in> Some ` set (g_states g) \<and> t_to t \<in> Some ` set (g_states g)"
    using unique_by_subset[of transition_key "[]" trans] build_transitions_endpoints
    unfolding g trans_def by auto
  have b: "\<forall>r. g_reset_state g = Some r \<longrightarrow> r \<in> set (g_states g)"
    unfolding g reset_def using detect_reset_state_member by auto
  have c: "distinct (map transition_key (g_transitions g))"
    unfolding g by (simp add: unique_by_distinct)
  from ne obtain v rest where vr: "?cands = v # rest" unfolding members_def by (cases ?cands) auto
  then have "v \<in> set ?cands" by simp
  then have v: "v \<in> set (snd grp)" "dict_get enum_index (?scope, ev_var_name v) \<noteq> None" by auto
  then obtain ev where ev: "dict_get enum_index (?scope, ev_var_name v) = Some ev" by auto
  have "members = ev_enum_members ev" using vr ev by (simp add: members_def)
  with v(1) ev have d: "\<exists>v \<in> set (snd grp). \<exists>ev. dict_get enum_index (?scope, ev_var_name v) = Some ev \<and>
              g_states g = ev_enum_members ev" unfolding g by auto
  from a b c d ne show ?thesis unfolding g by simp
qed

lemma find_all_children:
  "ch \<in> set chs \<Longrightarrow> set (find_all ch kn) \<subseteq> set (find_all (Node i k t l c chs) kn)"
  by auto

lemma index_step_members:
  assumes "(i, info) \<in> set (fst (index_step item st))"
  shows "(i, info) \<in> set (fst st) \<or> ei_members info = find_enum_members (fst item)"
proof -
  define nm where "nm = (case snd item of None \<Rightarrow> []
     | Some p \<Rightarrow>
         (if sublist ''typedef'' (collect_identifiers_inline p) \<and>
             sublist ''enum'' (collect_identifiers_inline p) then
            (case outer_names p (fst item) (find_enum_members (fst item)) of [] \<Rightarrow> [] | n # _ \<Rightarrow> n)
          else []))"
  have "fst (index_step item st) =
          dict_set (nid (fst item))
            \<lparr>ei_node = fst item, ei_name = nm, ei_members = find_enum_members (fst item)\<rparr> (fst st)"
    by (cases "snd item") (simp_all add: index_step_def Let_def nm_def)
  then have "\<exists>v. fst (index_step item st) = dict_set (nid (fst item)) v (fst st) \<and>
            ei_members v = find_enum_members (fst item)"
    by (metis enum_info.select_convs(3))
  then obtain v where v: "fst (index_step item st) = dict_set (nid (fst item)) v (fst st)"
    "ei_members v = find_enum_members (fst item)" by blast
  from assms v(1) dict_set_values[of "nid (fst item)" v "fst st"]
  have "(i, info) = (nid (fst item), v) \<or> (i, info) \<in> set (fst st)" by auto
  with v(2) show ?thesis by auto
qed

lemma fold_index_step_members:
  "(i, info) \<in> set (fst (fold index_step items st)) \<Longrightarrow>
     (i, info) \<in> set (fst st) \<or> (\<exists>item \<in> set items. ei_members info = find_enum_members (fst item))"
proof (induction items arbitrary: st)
  case Nil
  then show ?case by simp
next
  case (Cons item items)
  from Cons.IH[OF Cons.prems[simplified]] index_step_members[of i info item st]
  show ?case by auto
qed

lemma name_anonymous_members:
  "(i, info) \<in> set (name_anonymous c d) \<Longrightarrow>
     \<exists>info0. (i, info0) \<in> set d \<and> ei_members info = ei_members info0"
proof (induction d arbitrary: c)
  case Nil
  then show ?case by simp
next
  case (Cons e d)
  obtain j inf where e: "e = (j, inf)" by (cases e)
  show ?case
  proof (cases "ei_name inf = []")
    case True
    with Cons.prems e have
      "(i, info) = (j, inf\<lparr>ei_name := synth_name (ei_members inf) (c + 1)\<rparr>) \<or>
       (i, info) \<in> set (name_anonymous (c + 1) d)" by simp
    then show ?thesis
    proof
      assume "(i, info) = (j, inf\<lparr>ei_name := synth_name (ei_members inf) (c + 1)\<rparr>)"
      then have "(i, inf) \<in> set (e # d) \<and> ei_members info = ei_members inf" using e by simp
      then show ?thesis by blast
    next
      assume "(i, info) \<in> set (name_anonymous (c + 1) d)"
      from Cons.IH[OF this] show ?thesis by auto
    qed
  next
    case False
    with Cons.prems e have "(i, info) = (j, inf) \<or> (i, info) \<in> set (name_anonymous c d)" by simp
    then show ?thesis
    proof
      assume "(i, info) = (j, inf)"
      then have "(i, inf) \<in> set (e # d) \<and> ei_members info = ei_members inf" using e by simp
      then show ?thesis by blast
    next
      assume "(i, info) \<in> set (name_anonymous c d)"
      from Cons.IH[OF this] show ?thesis by auto
    qed
  qed
qed

lemma build_enum_index_members:
  assumes "(i, info) \<in> set (fst (build_enum_index root_node))"
  shows "\<exists>en \<in> set (find_all root_node ''EnumType''). ei_members info = find_enum_members en"
proof -
  from assms have "(i, info) \<in> set (name_anonymous 0 (fst (collect_enum_index root_node)))"
    by (simp add: build_enum_index_def Let_def)
  from name_anonymous_members[OF this] obtain info0 where
    i0: "(i, info0) \<in> set (fst (collect_enum_index root_node))" "ei_members info = ei_members info0"
    by blast
  from fold_index_step_members[OF i0(1)[unfolded collect_enum_index_def]]
  obtain item where "item \<in> set (dfs_collect None root_node)"
    "ei_members info0 = find_enum_members (fst item)" by auto
  moreover have "fst ` set (dfs_collect None root_node) = set (find_all root_node ''EnumType'')"
    using dfs_collect_find_all[of None root_node] by (metis set_map)
  ultimately show ?thesis using i0(2) by force
qed

lemma detect_enum_for_declaration_members:
  assumes "detect_enum_for_declaration decl idx td = Inr de" "de_enum_id de \<noteq> None"
  shows "members_ok idx decl (de_enum_members de)"
proof (cases "sublist ''enum'' (collect_identifiers_inline decl)")
  case True
  show ?thesis
  proof (cases "find_all decl ''EnumType''")
    case Nil
    with True assms show ?thesis
      by (auto simp: detect_enum_for_declaration_def Let_def no_enum_def)
  next
    case (Cons en rest)
    then have en: "en \<in> set (find_all decl ''EnumType'')" by simp
    show ?thesis
    proof (cases "dict_get idx (nid en)")
      case None
      with True Cons assms have "de_enum_members de = find_enum_members en"
        by (auto simp: detect_enum_for_declaration_def Let_def)
      with en show ?thesis by (auto simp: members_ok_def)
    next
      case (Some info)
      with True Cons assms have "de_enum_members de = ei_members info"
        by (auto simp: detect_enum_for_declaration_def Let_def)
      moreover from dict_get_mem[OF Some] have "info \<in> snd ` set idx" by force
      ultimately show ?thesis by (auto simp: members_ok_def)
    qed
  qed
next
  case False
  let ?f = "filter (\<lambda>(td_name, enum_id). td_name \<noteq> [] \<and> sublist td_name (collect_identifiers_inline decl)) td"
  show ?thesis
  proof (cases ?f)
    case Nil
    with False assms show ?thesis
      by (auto simp: detect_enum_for_declaration_def Let_def no_enum_def)
  next
    case (Cons p rest)
    obtain td_name enum_id where p: "p = (td_name, enum_id)" by (cases p)
    show ?thesis
    proof (cases "dict_get idx enum_id")
      case None
      with False Cons p assms show ?thesis
        by (simp add: detect_enum_for_declaration_def Let_def)
    next
      case (Some info)
      with False Cons p assms have "de_enum_members de = ei_members info"
        by (auto simp: detect_enum_for_declaration_def Let_def)
      moreover from dict_get_mem[OF Some] have "info \<in> snd ` set idx" by force
      ultimately show ?thesis by (auto simp: members_ok_def)
    qed
  qed
qed

lemma members_ok_child:
  "ch \<in> set chs \<Longrightarrow> members_ok idx ch ms \<Longrightarrow> members_ok idx (Node i k t l c chs) ms"
  using find_all_children[of ch chs "''EnumType''" i k t l c] by (auto simp: members_ok_def)

lemma dfs_vars_members:
  "dfs_vars idx td sc n = Inr vs \<longrightarrow> (\<forall>v \<in> set vs. members_ok idx n (ev_enum_members v))"
  "dfs_vars_list idx td sc ns = Inr vs \<longrightarrow>
     (\<forall>v \<in> set vs. \<exists>n \<in> set ns. members_ok idx n (ev_enum_members v))"
proof (induction idx td sc n and idx td sc ns arbitrary: vs and vs rule: dfs_vars_dfs_vars_list.induct)
  case (1 idx td scope_str i k t l c chs)
  let ?n = "Node i k t l c chs"
  have lift: "\<And>sc' rs. dfs_vars_list idx td sc' chs = Inr rs \<Longrightarrow>
      (\<forall>v \<in> set rs. \<exists>ch \<in> set chs. members_ok idx ch (ev_enum_members v)) \<Longrightarrow>
      \<forall>v \<in> set rs. members_ok idx ?n (ev_enum_members v)"
    using members_ok_child by blast
  show ?case
  proof (cases "map_of scope_kinds k")
    case (Some pfx)
    show ?thesis
    proof
      assume "dfs_vars idx td scope_str ?n = Inr vs"
      with Some have r: "dfs_vars_list idx td (scope_label pfx ?n) chs = Inr vs" by simp
      with 1(3)[OF Some] have "\<forall>v \<in> set vs. \<exists>ch \<in> set chs. members_ok idx ch (ev_enum_members v)"
        by simp
      from lift[OF r this] show "\<forall>v \<in> set vs. members_ok idx ?n (ev_enum_members v)" .
    qed
  next
    case None
    show ?thesis
    proof (cases "suffix ''Declaration'' k")
      case False
      show ?thesis
      proof
        assume "dfs_vars idx td scope_str ?n = Inr vs"
        with None False have r: "dfs_vars_list idx td scope_str chs = Inr vs" by simp
        with 1(2)[OF None False] have "\<forall>v \<in> set vs. \<exists>ch \<in> set chs. members_ok idx ch (ev_enum_members v)"
          by simp
        from lift[OF r this] show "\<forall>v \<in> set vs. members_ok idx ?n (ev_enum_members v)" .
      qed
    next
      case True
      show ?thesis
      proof
        assume a: "dfs_vars idx td scope_str ?n = Inr vs"
        with None True obtain de where de: "detect_enum_for_declaration ?n idx td = Inr de"
          by (cases "detect_enum_for_declaration ?n idx td") auto
        with a None True obtain rest where rest: "dfs_vars_list idx td scope_str chs = Inr rest"
          by (cases "dfs_vars_list idx td scope_str chs") auto
        define own where "own = (if de_enum_id de \<noteq> None then
                               map (\<lambda>vn. \<lparr>ev_var_name = vn, ev_enum_name = de_enum_name de,
                                           ev_enum_members = de_enum_members de,
                                           ev_scope = scope_str, ev_line = l, ev_column = c\<rparr>)
                                 (extract_var_names_from_declaration ?n
                                    (de_enum_name de) (de_enum_members de))
                             else [])"
        from a None True de rest have vs: "vs = own @ rest" by (simp add: own_def)
        have o: "\<forall>v \<in> set own. members_ok idx ?n (ev_enum_members v)"
          using detect_enum_for_declaration_members[OF de] by (auto simp: own_def)
        from 1(1)[OF None True de] rest
        have "\<forall>v \<in> set rest. \<exists>ch \<in> set chs. members_ok idx ch (ev_enum_members v)" by simp
        from lift[OF rest this] o vs
        show "\<forall>v \<in> set vs. members_ok idx ?n (ev_enum_members v)" by auto
      qed
    qed
  qed
next
  case (2 idx td scope_str)
  then show ?case by simp
next
  case (3 idx td scope_str n ns)
  show ?case
  proof
    assume a: "dfs_vars_list idx td scope_str (n # ns) = Inr vs"
    then obtain r where r: "dfs_vars idx td scope_str n = Inr r"
      by (cases "dfs_vars idx td scope_str n") auto
    with a obtain rs where rs: "dfs_vars_list idx td scope_str ns = Inr rs"
      by (cases "dfs_vars_list idx td scope_str ns") auto
    from a r rs have vs: "vs = r @ rs" by simp
    from 3(1) r have "\<forall>v \<in> set r. members_ok idx n (ev_enum_members v)" by simp
    moreover from 3(2)[OF r] rs
    have "\<forall>v \<in> set rs. \<exists>m \<in> set ns. members_ok idx m (ev_enum_members v)" by simp
    ultimately show "\<forall>v \<in> set vs. \<exists>m \<in> set (n # ns). members_ok idx m (ev_enum_members v)"
      using vs by auto
  qed
qed

lemma detect_enum_variables_members:
  assumes "detect_enum_variables_from_cst root_node = Inr vars" "v \<in> set vars"
  shows "\<exists>en \<in> set (find_all root_node ''EnumType''). ev_enum_members v = find_enum_members en"
proof -
  obtain idx td where b: "build_enum_index root_node = (idx, td)" by (cases "build_enum_index root_node")
  from assms b have ne: "idx \<noteq> []" by (auto simp: detect_enum_variables_from_cst_def)
  with assms(1) b obtain results where r: "dfs_vars idx td [] root_node = Inr results"
    "vars = unique_by var_key [] results"
    by (cases "dfs_vars idx td [] root_node") (auto simp: detect_enum_variables_from_cst_def)
  from assms(2) r(2) unique_by_subset have "v \<in> set results" by fastforce
  with dfs_vars_members(1)[of idx td "[]" root_node results] r(1)
  have "members_ok idx root_node (ev_enum_members v)" by simp
  then show ?thesis
    using build_enum_index_members[of _ _ root_node] b by (fastforce simp: members_ok_def)
qed

text \<open>
  What every graph returned by \<^verbatim>\<open>build_fsm_graphs_from_cst\<close> has: the \<^verbatim>\<open>from\<close> and
  \<^verbatim>\<open>to\<close> of each transition are members of \<open>states\<close>; the reset state, when present,
  is a member of \<open>states\<close>; no two transitions have the same \<^verbatim>\<open>(from, to, cond)\<close>
  triple; and \<open>states\<close> is, as a list, the member list of some enum variable detected in
  the graph's scope, which is the list \<^const>\<open>find_enum_members\<close> reads from an
  \<^verbatim>\<open>EnumType\<close> node of the tree, in the order of its enumerators. That variable need
  not be one of the graph's enum: see \<^const>\<open>shadow_tree\<close> below.
\<close>

theorem extracted_graph_invariants:
  assumes "build_fsm_graphs_from_cst root_node = Inr gs" and "g \<in> set gs"
  shows "(\<forall>t \<in> set (g_transitions g).
            t_from t \<in> Some ` set (g_states g) \<and> t_to t \<in> Some ` set (g_states g)) \<and>
         (\<forall>r. g_reset_state g = Some r \<longrightarrow> r \<in> set (g_states g)) \<and>
         distinct (map transition_key (g_transitions g)) \<and>
         (\<exists>vars. detect_enum_variables_from_cst root_node = Inr vars \<and>
            (\<exists>ev \<in> set vars. g_scope g = Some (ev_scope ev) \<and> g_states g = ev_enum_members ev)) \<and>
         (\<exists>en \<in> set (find_all root_node ''EnumType''). g_states g = find_enum_members en)"
proof -
  from assms(1) obtain cands where c: "detect_fsm_enum_candidates_from_cst root_node = Inr cands"
    by (cases "detect_fsm_enum_candidates_from_cst root_node")
       (auto simp: build_fsm_graphs_from_cst_def)
  with assms(1) obtain vars where v: "detect_enum_variables_from_cst root_node = Inr vars"
    by (cases "detect_enum_variables_from_cst root_node")
       (auto simp: build_fsm_graphs_from_cst_def)
  define enum_index where
    "enum_index = fold (\<lambda>ev d. dict_set (ev_scope ev, ev_var_name ev) ev d) vars []"
  define groups where
    "groups = fold (\<lambda>cand d. if ev_enum_name cand = [] then d
                             else dict_append (ev_scope cand, ev_enum_name cand) cand d) cands []"
  from assms(1) c v have "gs = concat (map (group_graph (collect_scope_nodes root_node) enum_index) groups)"
    by (simp add: build_fsm_graphs_from_cst_def Let_def enum_index_def groups_def)
  with assms(2) obtain grp where
    g: "g \<in> set (group_graph (collect_scope_nodes root_node) enum_index grp)" by auto
  from group_graph_invariants[OF g] have
    a: "\<forall>t \<in> set (g_transitions g).
            t_from t \<in> Some ` set (g_states g) \<and> t_to t \<in> Some ` set (g_states g)" and
    b: "\<forall>r. g_reset_state g = Some r \<longrightarrow> r \<in> set (g_states g)" and
    d: "distinct (map transition_key (g_transitions g))" and
    sc: "g_scope g = Some (fst (fst grp))" and
    ex: "\<exists>v \<in> set (snd grp). \<exists>ev. dict_get enum_index (fst (fst grp), ev_var_name v) = Some ev \<and>
              g_states g = ev_enum_members ev" by simp_all
  from ex obtain cv :: fsm_candidate and ev where ev: "dict_get enum_index (fst (fst grp), ev_var_name cv) = Some ev"
    "g_states g = ev_enum_members ev" by blast
  from dict_get_mem[OF ev(1)] have "((fst (fst grp), ev_var_name cv), ev) \<in> set enum_index" .
  from enum_index_values[OF this[unfolded enum_index_def]]
  have evv: "ev \<in> set vars" "fst (fst grp) = ev_scope ev" by auto
  from detect_enum_variables_members[OF v evv(1)] obtain en where
    en: "en \<in> set (find_all root_node ''EnumType'')" "ev_enum_members ev = find_enum_members en" by blast
  have e1: "\<exists>vars. detect_enum_variables_from_cst root_node = Inr vars \<and>
            (\<exists>ev \<in> set vars. g_scope g = Some (ev_scope ev) \<and> g_states g = ev_enum_members ev)"
    using v evv ev(2) sc by auto
  have e2: "\<exists>en \<in> set (find_all root_node ''EnumType''). g_states g = find_enum_members en"
    using en ev(2) by auto
  from a b d e1 e2 show ?thesis by (intro conjI)
qed

lemma tiny_graphs:
  "build_fsm_graphs_from_cst tiny_tree = Inr [\<lparr>g_scope = Some ''module m'', g_state_var = Some ''state'',
         g_next_state_var = Some ''nxt'', g_enum_name = Some ''t'',
         g_states = [''A'', ''B''], g_reset_state = Some ''A'',
         g_transitions =
           [\<lparr>t_from = Some ''A'', t_to = Some ''B'', t_cond = Some ''x''\<rparr>,
            \<lparr>t_from = Some ''B'', t_to = Some ''A'', t_cond = Some ''1''\<rparr>],
         g_num_states = 2, g_num_transitions = 2\<rparr>]"
  by code_simp

theorem extracted_graph_invariants_witness:
  "build_fsm_graphs_from_cst tiny_tree = Inr [tiny_graph] \<and> tiny_graph \<in> set [tiny_graph] \<and>
   t_from ` set (g_transitions tiny_graph) \<subseteq> Some ` set (g_states tiny_graph) \<and>
   t_to ` set (g_transitions tiny_graph) \<subseteq> Some ` set (g_states tiny_graph) \<and>
   g_reset_state tiny_graph \<in> Some ` set (g_states tiny_graph) \<and>
   distinct (map transition_key (g_transitions tiny_graph)) \<and>
   (\<exists>en \<in> set (find_all tiny_tree ''EnumType''). g_states tiny_graph = find_enum_members en)"
proof -
  have b: "build_fsm_graphs_from_cst tiny_tree = Inr [tiny_graph]"
    unfolding tiny_graph_def by (rule tiny_graphs)
  have m: "tiny_graph \<in> set [tiny_graph]" by simp
  have r: "g_reset_state tiny_graph = Some ''A''" by (simp add: tiny_graph_def)
  from extracted_graph_invariants[OF b m] have
    "t_from ` set (g_transitions tiny_graph) \<subseteq> Some ` set (g_states tiny_graph)"
    "t_to ` set (g_transitions tiny_graph) \<subseteq> Some ` set (g_states tiny_graph)"
    "g_reset_state tiny_graph \<in> Some ` set (g_states tiny_graph)"
    "distinct (map transition_key (g_transitions tiny_graph))"
    "\<exists>en \<in> set (find_all tiny_tree ''EnumType''). g_states tiny_graph = find_enum_members en"
    using r by blast+
  with b m show ?thesis by blast
qed

lemma enrich_fields:
  "ev_scope (enrich root_node x) = ev_scope x"
  "ev_var_name (enrich root_node x) = ev_var_name x"
  "ev_enum_name (enrich root_node x) = ev_enum_name x"
  by (simp_all add: enrich_def enum_var.defs)

lemma dict_append_entries:
  "(k', vs') \<in> set (dict_append k v d) \<Longrightarrow>
     (k', vs') \<in> set d \<or> (k' = k \<and> (vs' = [v] \<or> (\<exists>vs0. (k, vs0) \<in> set d \<and> vs' = vs0 @ [v])))"
  by (induction d) (auto split: if_splits)

lemma groups_entries:
  fixes cands :: "fsm_candidate list"
  assumes "(k, vs) \<in> set (fold (\<lambda>cand d. if ev_enum_name cand = [] then d
                                     else dict_append (ev_scope cand, ev_enum_name cand) cand d)
                       cands d0)"
    and "v \<in> set vs"
  shows "(\<exists>vs0. (k, vs0) \<in> set d0 \<and> v \<in> set vs0) \<or>
         (v \<in> set cands \<and> k = (ev_scope v, ev_enum_name v))"
  using assms
proof (induction cands arbitrary: d0)
  case Nil
  then show ?case by auto
next
  case (Cons c cands)
  let ?d1 = "if ev_enum_name c = [] then d0 else dict_append (ev_scope c, ev_enum_name c) c d0"
  from Cons.prems have "(k, vs) \<in> set (fold (\<lambda>cand d. if ev_enum_name cand = [] then d
                                     else dict_append (ev_scope cand, ev_enum_name cand) cand d)
                       cands ?d1)" by simp
  from Cons.IH[OF this Cons.prems(2)] have
    "(\<exists>vs0. (k, vs0) \<in> set ?d1 \<and> v \<in> set vs0) \<or> (v \<in> set cands \<and> k = (ev_scope v, ev_enum_name v))" .
  then show ?case
  proof
    assume "\<exists>vs0. (k, vs0) \<in> set ?d1 \<and> v \<in> set vs0"
    then obtain vs0 where vs0: "(k, vs0) \<in> set ?d1" "v \<in> set vs0" by blast
    show ?thesis
    proof (cases "ev_enum_name c = []")
      case True
      with vs0 show ?thesis by auto
    next
      case False
      with vs0(1) have "(k, vs0) \<in> set (dict_append (ev_scope c, ev_enum_name c) c d0)" by simp
      from dict_append_entries[OF this] vs0(2) show ?thesis by auto
    qed
  next
    assume "v \<in> set cands \<and> k = (ev_scope v, ev_enum_name v)"
    then show ?thesis by simp
  qed
qed

text \<open>
  Where no two detected variables have the same scope and name, the index by scope and
  variable name returns the variable it is asked for, and \<open>states\<close> is the member list
  of a variable of the graph's own enum.
\<close>

lemma extracted_graph_states_of_enum:
  assumes "build_fsm_graphs_from_cst root_node = Inr gs" and "g \<in> set gs"
    and "detect_enum_variables_from_cst root_node = Inr vars"
    and "distinct (map (\<lambda>ev. (ev_scope ev, ev_var_name ev)) vars)"
  shows "\<exists>ev \<in> set vars. g_scope g = Some (ev_scope ev) \<and> g_enum_name g = Some (ev_enum_name ev) \<and>
           g_states g = ev_enum_members ev"
proof -
  define cands where "cands = filter (\<lambda>c. fr_name_based c \<or> fr_used_in_case c \<or> fr_assigned_in_clocked_always c)
                 (map (enrich root_node) vars)"
  have c: "detect_fsm_enum_candidates_from_cst root_node = Inr cands"
    using assms(3) by (simp add: detect_fsm_enum_candidates_from_cst_def cands_def)
  define enum_index where
    "enum_index = fold (\<lambda>ev d. dict_set (ev_scope ev, ev_var_name ev) ev d) vars []"
  define groups where
    "groups = fold (\<lambda>cand d. if ev_enum_name cand = [] then d
                             else dict_append (ev_scope cand, ev_enum_name cand) cand d) cands []"
  from assms(1,3) c have "gs = concat (map (group_graph (collect_scope_nodes root_node) enum_index) groups)"
    by (simp add: build_fsm_graphs_from_cst_def Let_def enum_index_def groups_def)
  with assms(2) obtain grp where grp: "grp \<in> set groups"
    and g: "g \<in> set (group_graph (collect_scope_nodes root_node) enum_index grp)" by auto
  from group_graph_invariants[OF g] have
    sc: "g_scope g = Some (fst (fst grp))" and
    en: "g_enum_name g = Some (snd (fst grp))" and
    ex: "\<exists>v \<in> set (snd grp). \<exists>ev. dict_get enum_index (fst (fst grp), ev_var_name v) = Some ev \<and>
              g_states g = ev_enum_members ev" by simp_all
  from ex obtain cv :: fsm_candidate and ev where cv: "cv \<in> set (snd grp)"
    and ev: "dict_get enum_index (fst (fst grp), ev_var_name cv) = Some ev"
    "g_states g = ev_enum_members ev" by blast
  from grp have "(fst grp, snd grp) \<in> set groups" by simp
  from groups_entries[OF this[unfolded groups_def] cv]
  have cvc: "cv \<in> set cands" and key: "fst grp = (ev_scope cv, ev_enum_name cv)" by auto
  from cvc obtain ev0 where ev0: "ev0 \<in> set vars" "cv = enrich root_node ev0"
    by (auto simp: cands_def)
  from dict_get_mem[OF ev(1)] have "((fst (fst grp), ev_var_name cv), ev) \<in> set enum_index" .
  from enum_index_values[OF this[unfolded enum_index_def]]
  have evv: "ev \<in> set vars" "(fst (fst grp), ev_var_name cv) = (ev_scope ev, ev_var_name ev)" by auto
  have "(ev_scope ev, ev_var_name ev) = (ev_scope ev0, ev_var_name ev0)"
    using evv(2) key ev0(2) by (simp add: enrich_fields)
  with assms(4) evv(1) ev0(1) have "ev = ev0"
    by (meson distinct_map inj_onD)
  then have "ev_enum_name ev = snd (fst grp)" using key ev0(2) by (simp add: enrich_fields)
  moreover have "ev_scope ev = fst (fst grp)" using evv(2) by simp
  ultimately have "g_scope g = Some (ev_scope ev) \<and> g_enum_name g = Some (ev_enum_name ev) \<and>
           g_states g = ev_enum_members ev" using ev(2) sc en by simp
  with evv(1) show ?thesis by blast
qed

text \<open>
  Claim C2, evaluated on the code. The builder groups the candidates by scope and enum
  name, but reads the member list of a group through an index keyed by scope and variable
  name, in which a later variable replaces an earlier one of the same name. In
  \<^const>\<open>shadow_tree\<close> the scope \<^verbatim>\<open>module m\<close> has a variable \<^verbatim>\<open>state\<close> of the enum
  \<^verbatim>\<open>t1\<close>, whose members are \<^verbatim>\<open>A, B\<close>, and a block-local variable \<^verbatim>\<open>state\<close> of the
  enum \<^verbatim>\<open>t2\<close>, whose members are \<^verbatim>\<open>C, D\<close>. The graph returned for \<^verbatim>\<open>t1\<close> has the
  states \<^verbatim>\<open>C, D\<close>: its \<open>states\<close> is not the member list of its enum.
\<close>

theorem shadowed_variable_states:
  "map (ei_name \<circ> snd) (fst (build_enum_index shadow_tree)) = [''t1'', ''t2''] \<and>
   map (ei_members \<circ> snd) (fst (build_enum_index shadow_tree)) = [[''A'', ''B''], [''C'', ''D'']] \<and>
   detect_enum_variables_from_cst shadow_tree =
     Inr [\<lparr>ev_var_name = ''state'', ev_enum_name = ''t1'', ev_enum_members = [''A'', ''B''],
            ev_scope = ''module m'', ev_line = None, ev_column = None\<rparr>,
          \<lparr>ev_var_name = ''state'', ev_enum_name = ''t2'', ev_enum_members = [''C'', ''D''],
            ev_scope = ''module m'', ev_line = None, ev_column = None\<rparr>] \<and>
   build_fsm_graphs_from_cst shadow_tree =
     Inr [\<lparr>g_scope = Some ''module m'', g_state_var = Some ''state'', g_next_state_var = None,
            g_enum_name = Some ''t1'', g_states = [''C'', ''D''], g_reset_state = None,
            g_transitions = [], g_num_states = 2, g_num_transitions = 0\<rparr>,
          \<lparr>g_scope = Some ''module m'', g_state_var = Some ''state'', g_next_state_var = None,
            g_enum_name = Some ''t2'', g_states = [''C'', ''D''], g_reset_state = None,
            g_transitions = [], g_num_states = 2, g_num_transitions = 0\<rparr>]"
proof -
  have "map (ei_name \<circ> snd) (fst (build_enum_index shadow_tree)) = [''t1'', ''t2'']"
    by code_simp
  moreover have "map (ei_members \<circ> snd) (fst (build_enum_index shadow_tree)) =
     [[''A'', ''B''], [''C'', ''D'']]"
    by code_simp
  moreover have "detect_enum_variables_from_cst shadow_tree =
     Inr [\<lparr>ev_var_name = ''state'', ev_enum_name = ''t1'', ev_enum_members = [''A'', ''B''],
            ev_scope = ''module m'', ev_line = None, ev_column = None\<rparr>,
          \<lparr>ev_var_name = ''state'', ev_enum_name = ''t2'', ev_enum_members = [''C'', ''D''],
            ev_scope = ''module m'', ev_line = None, ev_column = None\<rparr>]"
    by code_simp
  moreover have "build_fsm_graphs_from_cst shadow_tree =
     Inr [\<lparr>g_scope = Some ''module m'', g_state_var = Some ''state'', g_next_state_var = None,
            g_enum_name = Some ''t1'', g_states = [''C'', ''D''], g_reset_state = None,
            g_transitions = [], g_num_states = 2, g_num_transitions = 0\<rparr>,
          \<lparr>g_scope = Some ''module m'', g_state_var = Some ''state'', g_next_state_var = None,
            g_enum_name = Some ''t2'', g_states = [''C'', ''D''], g_reset_state = None,
            g_transitions = [], g_num_states = 2, g_num_transitions = 0\<rparr>]"
    by code_simp
  ultimately show ?thesis by (intro conjI)
qed

section \<open>The extraction raises no exception\<close>

text \<open>
  The only exception the enum resolver can raise is the \<^verbatim>\<open>KeyError\<close> of
  \<^verbatim>\<open>enum_info_by_id[enum_id]\<close> in the typedef branch of
  \<^verbatim>\<open>detect_enum_for_declaration\<close>. It is never raised on the index built from the same
  tree, because every identity stored in \<^verbatim>\<open>typedef_to_enum\<close> is a key of
  \<^verbatim>\<open>enum_info_by_id\<close>.
\<close>

lemma dict_set_snd: "snd ` set (dict_set k v d) \<subseteq> insert v (snd ` set d)"
proof
  fix y assume "y \<in> snd ` set (dict_set k v d)"
  then obtain x where "(x, y) \<in> set (dict_set k v d)" by force
  with dict_set_values[of k v d] have "(x, y) = (k, v) \<or> (x, y) \<in> set d" by blast
  then show "y \<in> insert v (snd ` set d)" by force
qed

lemma dict_set_all_values: "snd ` set (dict_set_all ks v d) \<subseteq> insert v (snd ` set d)"
proof (induction ks arbitrary: d)
  case Nil
  then show ?case by auto
next
  case (Cons k ks)
  from Cons[of "dict_set k v d"] dict_set_snd[of k v d] show ?case by auto
qed

lemma td_step:
  "snd ` set (if b then dict_set_all ns v (if a then dict_set tn v td else td)
              else (if a then dict_set tn v td else td)) \<subseteq> insert v (snd ` set td)"
proof -
  have 1: "snd ` set (if a then dict_set tn v td else td) \<subseteq> insert v (snd ` set td)"
    using dict_set_snd[of tn v td] by (cases a) auto
  show ?thesis
  proof (cases b)
    case True
    with dict_set_all_values[of ns v "if a then dict_set tn v td else td"] 1 show ?thesis
      by (simp only: if_True) blast
  next
    case False
    with 1 show ?thesis by (simp only: if_False)
  qed
qed

lemma index_step_td_values:
  "snd ` set (snd (index_step item st)) \<subseteq> insert (nid (fst item)) (snd ` set (snd st))"
proof (cases "snd item")
  case None
  then have "snd (index_step item st) = snd st"
    by (simp only: index_step_def Let_def option.case snd_conv)
  then show ?thesis by (simp only:) blast
next
  case (Some p)
  show ?thesis
    by (simp only: index_step_def Let_def option.case snd_conv Some) (rule td_step)
qed

lemma index_step_td_ok:
  assumes "td_ok (fst st) (snd st)"
  shows "td_ok (fst (index_step item st)) (snd (index_step item st))"
proof -
  have keys: "fst ` set (fst (index_step item st)) = insert (nid (fst item)) (fst ` set (fst st))"
    using index_step_keys[of item st] by (simp only: set_map)
  from index_step_td_values[of item st] assms show ?thesis
    unfolding td_ok_def keys by blast
qed

lemma fold_index_step_td_ok:
  "td_ok (fst st) (snd st) \<Longrightarrow> td_ok (fst (fold index_step items st)) (snd (fold index_step items st))"
  by (induction items arbitrary: st) (simp_all add: index_step_td_ok)

lemma name_anonymous_keys: "map fst (name_anonymous c d) = map fst d"
  by (induction d arbitrary: c) auto

lemma build_enum_index_td_ok: "td_ok (fst (build_enum_index root_node)) (snd (build_enum_index root_node))"
proof -
  have "td_ok (fst (collect_enum_index root_node)) (snd (collect_enum_index root_node))"
    unfolding collect_enum_index_def by (rule fold_index_step_td_ok) (simp add: td_ok_def)
  moreover have "fst ` set (name_anonymous 0 (fst (collect_enum_index root_node)))
                 = fst ` set (fst (collect_enum_index root_node))"
    using name_anonymous_keys[of 0 "fst (collect_enum_index root_node)"] by (metis set_map)
  ultimately show ?thesis by (simp add: build_enum_index_def Let_def td_ok_def)
qed

lemma detect_enum_for_declaration_total:
  assumes "td_ok idx td"
  shows "\<exists>de. detect_enum_for_declaration decl idx td = Inr de"
proof (cases "sublist ''enum'' (collect_identifiers_inline decl)")
  case True
  then show ?thesis
    by (auto simp: detect_enum_for_declaration_def Let_def split: list.splits option.splits)
next
  case False
  let ?f = "filter (\<lambda>(td_name, enum_id). td_name \<noteq> [] \<and> sublist td_name (collect_identifiers_inline decl)) td"
  show ?thesis
  proof (cases ?f)
    case Nil
    with False show ?thesis by (simp add: detect_enum_for_declaration_def Let_def)
  next
    case (Cons p rest)
    obtain td_name enum_id where p: "p = (td_name, enum_id)" by (cases p)
    from Cons p have "(td_name, enum_id) \<in> set ?f" by simp
    then have "(td_name, enum_id) \<in> set td" by simp
    with assms have "enum_id \<in> fst ` set idx" unfolding td_ok_def by force
    then obtain info where "dict_get idx enum_id = Some info"
      unfolding dict_get_def by (metis map_of_eq_None_iff not_None_eq)
    with False Cons p show ?thesis by (simp add: detect_enum_for_declaration_def Let_def)
  qed
qed

lemma dfs_vars_total:
  "td_ok idx td \<longrightarrow> (\<exists>vs. dfs_vars idx td sc n = Inr vs)"
  "td_ok idx td \<longrightarrow> (\<exists>vs. dfs_vars_list idx td sc ns = Inr vs)"
proof (induction idx td sc n and idx td sc ns rule: dfs_vars_dfs_vars_list.induct)
  case (1 idx td scope_str i k t l c chs)
  show ?case
  proof
    assume ok: "td_ok idx td"
    show "\<exists>vs. dfs_vars idx td scope_str (Node i k t l c chs) = Inr vs"
    proof (cases "map_of scope_kinds k")
      case (Some pfx)
      with 1(3)[OF Some] ok show ?thesis by simp
    next
      case None
      show ?thesis
      proof (cases "suffix ''Declaration'' k")
        case False
        with None 1(2)[OF None False] ok show ?thesis by simp
      next
        case True
        from detect_enum_for_declaration_total[OF ok] obtain de where
          de: "detect_enum_for_declaration (Node i k t l c chs) idx td = Inr de" by blast
        from 1(1)[OF None True de] ok obtain rest where
          "dfs_vars_list idx td scope_str chs = Inr rest" by blast
        with None True de show ?thesis by simp
      qed
    qed
  qed
next
  case (2 idx td scope_str)
  then show ?case by simp
next
  case (3 idx td scope_str n ns)
  show ?case
  proof
    assume ok: "td_ok idx td"
    with 3(1) obtain r where r: "dfs_vars idx td scope_str n = Inr r" by blast
    from 3(2)[OF r] ok obtain rs where "dfs_vars_list idx td scope_str ns = Inr rs" by blast
    with r show "\<exists>vs. dfs_vars_list idx td scope_str (n # ns) = Inr vs" by simp
  qed
qed

lemma extraction_total:
  "(\<exists>vars. detect_enum_variables_from_cst root_node = Inr vars) \<and>
   (\<exists>cands. detect_fsm_enum_candidates_from_cst root_node = Inr cands) \<and>
   (\<exists>gs. build_fsm_graphs_from_cst root_node = Inr gs)"
proof -
  obtain idx td where b: "build_enum_index root_node = (idx, td)" by (cases "build_enum_index root_node")
  with build_enum_index_td_ok[of root_node] have "td_ok idx td" by simp
  with dfs_vars_total(1)[of idx td "[]" root_node] obtain vs where
    "dfs_vars idx td [] root_node = Inr vs" by blast
  with b have v: "\<exists>vars. detect_enum_variables_from_cst root_node = Inr vars"
    by (simp add: detect_enum_variables_from_cst_def)
  then show ?thesis
    by (auto simp: detect_fsm_enum_candidates_from_cst_def build_fsm_graphs_from_cst_def Let_def)
qed

end
